theory Spec2Isabelle
  imports Complex_Main "HOL-Library.Multiset"
begin

section \<open>Paged K-V cache memory manager: block pool and per-sequence block table\<close>

text \<open>
  The development embeds \<^verbatim>\<open>block_manager.py\<close> (class \<^verbatim>\<open>BlockManager\<close>) and
  \<^verbatim>\<open>sequence.py\<close> (class \<^verbatim>\<open>Sequence\<close>). Python integers are \<open>int\<close>, the free list is
  an \<open>int list\<close> (Python pops from and appends to its end), the block table is an
  insertion-ordered association list, and every method returns its outcome together with
  the objects as the call leaves them, so that the state after a raised exception is part of
  the model.
\<close>

subsection \<open>Exceptions\<close>

text \<open>
  One constructor for each \<^verbatim>\<open>raise\<close> of the two modules, carrying the values the message
  is formatted from; \<open>ZeroDivisionError\<close> is what Python's \<^verbatim>\<open>//\<close> and \<^verbatim>\<open>%\<close> raise on a
  zero \<^verbatim>\<open>block_size\<close>.
\<close>

datatype error =
    RuntimeError_all_allocated int
  | RuntimeError_failed_to_allocate string int error
  | ValueError_invalid_block_index int int
  | ValueError_already_free int
  | ValueError_invalid_token_index int int
  | ValueError_logical_block_not_found int int
  | ZeroDivisionError

subsection \<open>The block pool (\<^verbatim>\<open>BlockManager\<close>)\<close>

text \<open>
  The two \<^verbatim>\<open>float16\<close> tensors \<^verbatim>\<open>key_cache\<close> and \<^verbatim>\<open>value_cache\<close> hold the payload only; no
  method below reads or writes them, and they are not part of the record.
\<close>

record BlockManager =
  num_blocks :: int
  block_size :: int
  num_layers :: int
  num_heads :: int
  head_size :: int
  device :: string
  free_blocks :: "int list"

text \<open>
  \<^verbatim>\<open>list(range(num_blocks))\<close> is \<open>[0..num_blocks - 1]\<close>, empty when \<open>num_blocks \<le> 0\<close>. The
  constructor's \<^verbatim>\<open>torch.zeros\<close> calls belong to the library; the record is built for all
  arguments, and the properties below state the bounds on \<open>num_blocks\<close> and \<open>block_size\<close>
  they need.
\<close>

definition BlockManager_init :: "int \<Rightarrow> int \<Rightarrow> int \<Rightarrow> int \<Rightarrow> int \<Rightarrow> string \<Rightarrow> BlockManager" where
  "BlockManager_init nb bs nl nh hs dev =
     \<lparr>num_blocks = nb, block_size = bs, num_layers = nl, num_heads = nh, head_size = hs,
      device = dev, free_blocks = [0..nb - 1]\<rparr>"

definition allocate_block :: "BlockManager \<Rightarrow> (error + int) \<times> BlockManager" where
  "allocate_block m =
     (if free_blocks m = [] then (Inl (RuntimeError_all_allocated (num_blocks m)), m)
      else (Inr (last (free_blocks m)), m\<lparr>free_blocks := butlast (free_blocks m)\<rparr>))"

definition free_block :: "BlockManager \<Rightarrow> int \<Rightarrow> (error + unit) \<times> BlockManager" where
  "free_block m block_index =
     (if block_index < 0 \<or> block_index \<ge> num_blocks m
        then (Inl (ValueError_invalid_block_index block_index (num_blocks m)), m)
      else if block_index \<in> set (free_blocks m)
        then (Inl (ValueError_already_free block_index), m)
      else (Inr (), m\<lparr>free_blocks := free_blocks m @ [block_index]\<rparr>))"

definition get_num_free_blocks :: "BlockManager \<Rightarrow> int" where
  "get_num_free_blocks m = int (length (free_blocks m))"

subsection \<open>The block table: a Python dict\<close>

text \<open>
  A \<^verbatim>\<open>dict\<close> keeps its keys in insertion order; assigning to a key that is present keeps
  its position, assigning to a new key appends it.
\<close>

type_synonym block_table = "(int \<times> int) list"

definition dict_contains :: "block_table \<Rightarrow> int \<Rightarrow> bool" where
  "dict_contains d k = (k \<in> set (map fst d))"

fun dict_set :: "block_table \<Rightarrow> int \<Rightarrow> int \<Rightarrow> block_table" where
  "dict_set [] k v = [(k, v)]"
| "dict_set ((k', v') # d) k v = (if k' = k then (k, v) # d else (k', v') # dict_set d k v)"

definition dict_values :: "block_table \<Rightarrow> int list" where
  "dict_values d = map snd d"

subsection \<open>The per-request page table (\<^verbatim>\<open>Sequence\<close>)\<close>

record Sequence =
  request_id :: string
  token_count :: int
  block_table :: block_table

definition Sequence_init :: "string \<Rightarrow> Sequence" where
  "Sequence_init rid = \<lparr>request_id = rid, token_count = 0, block_table = []\<rparr>"

definition append_token :: "Sequence \<Rightarrow> BlockManager \<Rightarrow> (error + unit) \<times> Sequence \<times> BlockManager" where
  "append_token s m =
     (if block_size m = 0 then (Inl ZeroDivisionError, s, m)
      else
        let logical_block_idx = token_count s div block_size m in
        if \<not> dict_contains (block_table s) logical_block_idx then
          (case allocate_block m of
             (Inl e, m') \<Rightarrow>
               (Inl (RuntimeError_failed_to_allocate (request_id s) (token_count s) e), s, m')
           | (Inr physical_block_idx, m') \<Rightarrow>
               (Inr (),
                s\<lparr>block_table := dict_set (block_table s) logical_block_idx physical_block_idx,
                  token_count := token_count s + 1\<rparr>,
                m'))
        else (Inr (), s\<lparr>token_count := token_count s + 1\<rparr>, m))"

text \<open>\<^verbatim>\<open>for _ in range(num_tokens)\<close>: no iteration when \<open>num_tokens \<le> 0\<close>; the first
  exception leaves the loop.\<close>

fun append_tokens_loop :: "Sequence \<Rightarrow> BlockManager \<Rightarrow> nat \<Rightarrow> (error + unit) \<times> Sequence \<times> BlockManager" where
  "append_tokens_loop s m 0 = (Inr (), s, m)"
| "append_tokens_loop s m (Suc n) =
     (case append_token s m of
        (Inl e, s', m') \<Rightarrow> (Inl e, s', m')
      | (Inr u, s', m') \<Rightarrow> append_tokens_loop s' m' n)"

definition append_tokens :: "Sequence \<Rightarrow> BlockManager \<Rightarrow> int \<Rightarrow> (error + unit) \<times> Sequence \<times> BlockManager" where
  "append_tokens s m num_tokens = append_tokens_loop s m (nat num_tokens)"

definition get_physical_block :: "Sequence \<Rightarrow> int \<Rightarrow> BlockManager \<Rightarrow> error + (int \<times> int)" where
  "get_physical_block s token_index m =
     (if token_index < 0 \<or> token_index \<ge> token_count s
        then Inl (ValueError_invalid_token_index token_index (token_count s))
      else if block_size m = 0 then Inl ZeroDivisionError
      else
        let logical_block_idx = token_index div block_size m;
            offset = token_index mod block_size m in
        (case map_of (block_table s) logical_block_idx of
           None \<Rightarrow> Inl (ValueError_logical_block_not_found logical_block_idx token_index)
         | Some physical_block_idx \<Rightarrow> Inr (physical_block_idx, offset)))"

definition get_num_blocks :: "Sequence \<Rightarrow> int" where
  "get_num_blocks s = int (length (block_table s))"

text \<open>The loop of \<^verbatim>\<open>free_all_blocks\<close> over \<^verbatim>\<open>block_table.values()\<close>: the first exception
  leaves it, with the pool as the earlier iterations left it.\<close>

fun free_blocks_loop :: "BlockManager \<Rightarrow> int list \<Rightarrow> (error + unit) \<times> BlockManager" where
  "free_blocks_loop m [] = (Inr (), m)"
| "free_blocks_loop m (physical_block_idx # rest) =
     (case free_block m physical_block_idx of
        (Inl e, m') \<Rightarrow> (Inl e, m')
      | (Inr u, m') \<Rightarrow> free_blocks_loop m' rest)"

definition free_all_blocks :: "Sequence \<Rightarrow> BlockManager \<Rightarrow> (error + unit) \<times> Sequence \<times> BlockManager" where
  "free_all_blocks s m =
     (case free_blocks_loop m (dict_values (block_table s)) of
        (Inl e, m') \<Rightarrow> (Inl e, s, m')
      | (Inr u, m') \<Rightarrow> (Inr (), s\<lparr>block_table := [], token_count := 0\<rparr>, m'))"


subsection \<open>Callers of the pool: repeated allocation, releasable block lists\<close>

text \<open>A caller that calls \<^verbatim>\<open>allocate_block\<close> \<open>n\<close> times in a row and collects the returned
  identifiers in call order; the first exception ends the run.\<close>

fun allocate_times :: "BlockManager \<Rightarrow> nat \<Rightarrow> (error + int list) \<times> BlockManager" where
  "allocate_times m 0 = (Inr [], m)"
| "allocate_times m (Suc n) =
     (case allocate_block m of
        (Inl e, m') \<Rightarrow> (Inl e, m')
      | (Inr b, m') \<Rightarrow>
          (case allocate_times m' n of
             (Inl e, m'') \<Rightarrow> (Inl e, m'')
           | (Inr ids, m'') \<Rightarrow> (Inr (b # ids), m'')))"

text \<open>A list of identifiers every one of which \<^verbatim>\<open>free_block\<close> accepts when they are released
  one after the other: all in range, none free, none twice in the list.\<close>

definition releasable :: "BlockManager \<Rightarrow> int list \<Rightarrow> bool" where
  "releasable m ids =
     (distinct ids \<and> (\<forall>b \<in> set ids. 0 \<le> b \<and> b < num_blocks m \<and> b \<notin> set (free_blocks m)))"

subsection \<open>A sequence's history of appends\<close>

text \<open>
  A sequence that is appended to once for every element of a list of pool states: the
  \<open>i\<close>-th \<^verbatim>\<open>append_token\<close> (which appends token \<open>i\<close>) runs against the pool as whatever
  happened in between (other sequences, releases) left it. \<open>None\<close> when some append raises.
\<close>

fun append_each :: "Sequence \<Rightarrow> BlockManager list \<Rightarrow> Sequence option" where
  "append_each s [] = Some s"
| "append_each s (m # ms) =
     (case append_token s m of
        (Inl e, s', m') \<Rightarrow> None
      | (Inr u, s', m') \<Rightarrow> append_each s' ms)"

subsection \<open>One pool shared by several sequences\<close>

text \<open>The physical identifiers a sequence's block table references, and those of a list of
  sequences, with multiplicity.\<close>

definition seq_blocks :: "Sequence \<Rightarrow> int list" where
  "seq_blocks s = dict_values (block_table s)"

definition mapped_blocks :: "Sequence list \<Rightarrow> int list" where
  "mapped_blocks ss = concat (map seq_blocks ss)"

text \<open>
  A driver owning one \<^verbatim>\<open>BlockManager\<close> and any number of \<^verbatim>\<open>Sequence\<close> objects, addressed by
  position. \<open>held\<close> is the driver's own list of identifiers that it got from calling
  \<^verbatim>\<open>allocate_block\<close> directly and has not released. Every operation leaves the objects as the
  method call leaves them, whether it returned or raised (the driver catches the exception
  and goes on); an operation on a sequence that does not exist does nothing.
\<close>

record system =
  pool :: BlockManager
  seqs :: "Sequence list"
  held :: "int list"

datatype op =
    New_sequence string
  | Allocate
  | Release int
  | Append_token nat
  | Append_tokens nat int
  | Release_all nat

definition fresh_system :: "int \<Rightarrow> int \<Rightarrow> int \<Rightarrow> int \<Rightarrow> int \<Rightarrow> string \<Rightarrow> system" where
  "fresh_system nb bs nl nh hs dev =
     \<lparr>pool = BlockManager_init nb bs nl nh hs dev, seqs = [], held = []\<rparr>"

fun step :: "system \<Rightarrow> op \<Rightarrow> system" where
  "step \<sigma> (New_sequence rid) = \<sigma>\<lparr>seqs := seqs \<sigma> @ [Sequence_init rid]\<rparr>"
| "step \<sigma> Allocate =
     (case allocate_block (pool \<sigma>) of
        (Inl e, m') \<Rightarrow> \<sigma>\<lparr>pool := m'\<rparr>
      | (Inr b, m') \<Rightarrow> \<sigma>\<lparr>pool := m', held := held \<sigma> @ [b]\<rparr>)"
| "step \<sigma> (Release b) =
     (case free_block (pool \<sigma>) b of
        (Inl e, m') \<Rightarrow> \<sigma>\<lparr>pool := m'\<rparr>
      | (Inr u, m') \<Rightarrow> \<sigma>\<lparr>pool := m', held := remove1 b (held \<sigma>)\<rparr>)"
| "step \<sigma> (Append_token i) =
     (if i < length (seqs \<sigma>) then
        (case append_token (seqs \<sigma> ! i) (pool \<sigma>) of
           (r, s', m') \<Rightarrow> \<sigma>\<lparr>pool := m', seqs := (seqs \<sigma>)[i := s']\<rparr>)
      else \<sigma>)"
| "step \<sigma> (Append_tokens i n) =
     (if i < length (seqs \<sigma>) then
        (case append_tokens (seqs \<sigma> ! i) (pool \<sigma>) n of
           (r, s', m') \<Rightarrow> \<sigma>\<lparr>pool := m', seqs := (seqs \<sigma>)[i := s']\<rparr>)
      else \<sigma>)"
| "step \<sigma> (Release_all i) =
     (if i < length (seqs \<sigma>) then
        (case free_all_blocks (seqs \<sigma> ! i) (pool \<sigma>) of
           (r, s', m') \<Rightarrow> \<sigma>\<lparr>pool := m', seqs := (seqs \<sigma>)[i := s']\<rparr>)
      else \<sigma>)"

fun run :: "system \<Rightarrow> op list \<Rightarrow> system" where
  "run \<sigma> [] = \<sigma>"
| "run \<sigma> (x # xs) = run (step \<sigma> x) xs"

text \<open>A direct \<^verbatim>\<open>free_block\<close> call is permitted when no sequence's block table references the
  identifier; every other call is always permitted.\<close>

fun permitted :: "system \<Rightarrow> op \<Rightarrow> bool" where
  "permitted \<sigma> (Release b) = (b \<notin> set (mapped_blocks (seqs \<sigma>)))"
| "permitted \<sigma> x = True"

fun permitted_run :: "system \<Rightarrow> op list \<Rightarrow> bool" where
  "permitted_run \<sigma> [] = True"
| "permitted_run \<sigma> (x # xs) = (permitted \<sigma> x \<and> permitted_run (step \<sigma> x) xs)"

text \<open>Every place that holds a block identifier: the free list, the driver's own handles
  and the block tables.\<close>

definition owners :: "system \<Rightarrow> int list" where
  "owners \<sigma> = free_blocks (pool \<sigma>) @ held \<sigma> @ mapped_blocks (seqs \<sigma>)"

text \<open>The ownership invariant: the pool still has its \<open>nb\<close> blocks, and the holders list each
  identifier of \<open>0, \<dots>, nb - 1\<close> exactly once.\<close>

definition partitioned :: "int \<Rightarrow> system \<Rightarrow> bool" where
  "partitioned nb \<sigma> = (num_blocks (pool \<sigma>) = nb \<and> mset (owners \<sigma>) = mset [0..nb - 1])"

text \<open>A sequence that goes through several \<^verbatim>\<open>append_tokens\<close> batches on one pool, going on
  after a batch that raised.\<close>

fun append_batches :: "Sequence \<Rightarrow> BlockManager \<Rightarrow> int list \<Rightarrow> Sequence \<times> BlockManager" where
  "append_batches s m [] = (s, m)"
| "append_batches s m (n # ns) =
     (case append_tokens s m n of (r, s', m') \<Rightarrow> append_batches s' m' ns)"

section \<open>Properties\<close>

subsection \<open>The block table\<close>

lemma dict_set_keys:
  "map fst (dict_set d k v) = (if k \<in> set (map fst d) then map fst d else map fst d @ [k])"
  by (induction d) force+

lemma dict_contains_dict_set: "dict_contains (dict_set d k v) k"
  by (simp add: dict_contains_def dict_set_keys)

lemma dict_set_fresh: "\<not> dict_contains d k \<Longrightarrow> dict_set d k v = d @ [(k, v)]"
  by (induction d) (auto simp: dict_contains_def)

subsection \<open>The pool\<close>

lemma allocate_block_fail_unchanged: "allocate_block m = (Inl e, m') \<Longrightarrow> m' = m"
  by (auto simp: allocate_block_def split: if_splits)

lemma allocate_times_take:
  "n \<le> length (free_blocks m) \<Longrightarrow>
   allocate_times m n =
     (Inr (take n (rev (free_blocks m))),
      m\<lparr>free_blocks := take (length (free_blocks m) - n) (free_blocks m)\<rparr>)"
proof (induction n arbitrary: m)
  case 0
  then show ?case by simp
next
  case (Suc n)
  from Suc.prems obtain xs x where f: "free_blocks m = xs @ [x]"
    by (cases "free_blocks m" rule: rev_cases) auto
  let ?m' = "m\<lparr>free_blocks := xs\<rparr>"
  have a: "allocate_block m = (Inr x, ?m')"
    by (simp add: allocate_block_def f)
  have len: "n \<le> length (free_blocks ?m')" using Suc.prems f by simp
  show ?case
    using Suc.IH [OF len] a by (simp add: f)
qed

text \<open>
  C5: for \<open>num_blocks \<ge> 0\<close>, a freshly constructed pool has \<open>num_blocks\<close> free blocks;
  \<open>num_blocks\<close> calls of \<^verbatim>\<open>allocate_block\<close> all succeed and return \<open>num_blocks - 1, \<dots>, 0\<close>, that
  is every identifier of \<open>[0, num_blocks)\<close> exactly once; the pool then has no free block,
  and one more \<^verbatim>\<open>allocate_block\<close> raises and leaves the pool as it is.
\<close>

theorem pool_exhaustion:
  assumes "0 \<le> nb"
  shows "get_num_free_blocks (BlockManager_init nb bs nl nh hs dev) = nb
    \<and> allocate_times (BlockManager_init nb bs nl nh hs dev) (nat nb) =
           (Inr (rev [0..nb - 1]), (BlockManager_init nb bs nl nh hs dev)\<lparr>free_blocks := []\<rparr>)
    \<and> distinct (rev [0..nb - 1]) \<and> set (rev [0..nb - 1]) = {b. 0 \<le> b \<and> b < nb}
    \<and> length (rev [0..nb - 1]) = nat nb
    \<and> get_num_free_blocks ((BlockManager_init nb bs nl nh hs dev)\<lparr>free_blocks := []\<rparr>) = 0
    \<and> allocate_block ((BlockManager_init nb bs nl nh hs dev)\<lparr>free_blocks := []\<rparr>) =
           (Inl (RuntimeError_all_allocated nb), (BlockManager_init nb bs nl nh hs dev)\<lparr>free_blocks := []\<rparr>)"
proof -
  let ?m = "BlockManager_init nb bs nl nh hs dev"
  have f: "free_blocks ?m = [0..nb - 1]" by (simp add: BlockManager_init_def)
  have 1: "get_num_free_blocks ?m = nb"
    using assms by (simp add: get_num_free_blocks_def f)
  have "nat nb \<le> length (free_blocks ?m)" by (simp add: f)
  from allocate_times_take [OF this]
  have 2: "allocate_times ?m (nat nb) = (Inr (rev [0..nb - 1]), ?m\<lparr>free_blocks := []\<rparr>)"
    by (simp add: f)
  have 3: "distinct (rev [0..nb - 1]) \<and> set (rev [0..nb - 1]) = {b. 0 \<le> b \<and> b < nb}"
    by auto
  have 4: "length (rev [0..nb - 1]) = nat nb" by simp
  have 5: "get_num_free_blocks (?m\<lparr>free_blocks := []\<rparr>) = 0"
    by (simp add: get_num_free_blocks_def)
  have 6: "allocate_block (?m\<lparr>free_blocks := []\<rparr>) = (Inl (RuntimeError_all_allocated nb), ?m\<lparr>free_blocks := []\<rparr>)"
    by (simp add: allocate_block_def BlockManager_init_def)
  from 1 2 3 4 5 6 show ?thesis by blast
qed

theorem pool_exhaustion_witness:
  "(0::int) \<le> 3
   \<and> get_num_free_blocks (BlockManager_init 3 16 4 8 64 ''cpu'') = 3
   \<and> allocate_times (BlockManager_init 3 16 4 8 64 ''cpu'') 3 =
        (Inr [2, 1, 0], (BlockManager_init 3 16 4 8 64 ''cpu'')\<lparr>free_blocks := []\<rparr>)
   \<and> allocate_block ((BlockManager_init 3 16 4 8 64 ''cpu'')\<lparr>free_blocks := []\<rparr>) =
        (Inl (RuntimeError_all_allocated 3), (BlockManager_init 3 16 4 8 64 ''cpu'')\<lparr>free_blocks := []\<rparr>)"
proof -
  have h: "(0::int) \<le> 3" by simp
  have u: "[0..(2::int)] = [0, 1, 2]" by code_simp
  show ?thesis
    using h pool_exhaustion [OF h, of 16 4 8 64 "''cpu''"] by (simp add: u)
qed

text \<open>
  C6: \<^verbatim>\<open>free_block\<close> raises the invalid-index error for an identifier outside
  \<open>[0, num_blocks)\<close> and the already-free error for one in the free list, leaving the pool
  unchanged in both cases; for an allocated identifier it appends it to the free list; and
  whenever it returns normally the identifier was in range and not free before, and is free
  afterwards.
\<close>

theorem free_block_cases:
  "(block_index < 0 \<or> num_blocks m \<le> block_index \<longrightarrow>
      free_block m block_index = (Inl (ValueError_invalid_block_index block_index (num_blocks m)), m))
   \<and> (0 \<le> block_index \<and> block_index < num_blocks m \<and> block_index \<in> set (free_blocks m) \<longrightarrow>
      free_block m block_index = (Inl (ValueError_already_free block_index), m))
   \<and> (0 \<le> block_index \<and> block_index < num_blocks m \<and> block_index \<notin> set (free_blocks m) \<longrightarrow>
      free_block m block_index = (Inr (), m\<lparr>free_blocks := free_blocks m @ [block_index]\<rparr>))
   \<and> (\<forall>m'. free_block m block_index = (Inr (), m') \<longrightarrow>
        0 \<le> block_index \<and> block_index < num_blocks m \<and> block_index \<notin> set (free_blocks m)
        \<and> block_index \<in> set (free_blocks m'))"
  by (auto simp: free_block_def)


theorem free_block_cases_witness:
  "free_block \<lparr>num_blocks = 3, block_size = 16, num_layers = 4, num_heads = 8, head_size = 64,
       device = ''cpu'', free_blocks = [0, 1]\<rparr> 5 =
     (Inl (ValueError_invalid_block_index 5 3),
      \<lparr>num_blocks = 3, block_size = 16, num_layers = 4, num_heads = 8, head_size = 64,
       device = ''cpu'', free_blocks = [0, 1]\<rparr>)
   \<and> free_block \<lparr>num_blocks = 3, block_size = 16, num_layers = 4, num_heads = 8, head_size = 64,
       device = ''cpu'', free_blocks = [0, 1]\<rparr> 1 =
     (Inl (ValueError_already_free 1),
      \<lparr>num_blocks = 3, block_size = 16, num_layers = 4, num_heads = 8, head_size = 64,
       device = ''cpu'', free_blocks = [0, 1]\<rparr>)
   \<and> free_block \<lparr>num_blocks = 3, block_size = 16, num_layers = 4, num_heads = 8, head_size = 64,
       device = ''cpu'', free_blocks = [0, 1]\<rparr> 2 =
     (Inr (),
      \<lparr>num_blocks = 3, block_size = 16, num_layers = 4, num_heads = 8, head_size = 64,
       device = ''cpu'', free_blocks = [0, 1, 2]\<rparr>)"
  using free_block_cases [of 5 "\<lparr>num_blocks = 3, block_size = 16, num_layers = 4, num_heads = 8,
          head_size = 64, device = ''cpu'', free_blocks = [0, 1]\<rparr>"]
        free_block_cases [of 1 "\<lparr>num_blocks = 3, block_size = 16, num_layers = 4, num_heads = 8,
          head_size = 64, device = ''cpu'', free_blocks = [0, 1]\<rparr>"]
        free_block_cases [of 2 "\<lparr>num_blocks = 3, block_size = 16, num_layers = 4, num_heads = 8,
          head_size = 64, device = ''cpu'', free_blocks = [0, 1]\<rparr>"]
  by simp

subsection \<open>Appending tokens\<close>

lemma append_token_fail_unchanged:
  "append_token s m = (Inl e, s', m') \<Longrightarrow> s' = s \<and> m' = m"
  by (auto simp: append_token_def Let_def allocate_block_def split: if_splits prod.splits sum.splits)

lemma append_token_ok_count:
  "append_token s m = (Inr u, s', m') \<Longrightarrow> token_count s' = token_count s + 1"
  by (auto simp: append_token_def Let_def split: if_splits prod.splits sum.splits)

lemma append_token_ok_contains:
  "append_token s m = (Inr u, s', m') \<Longrightarrow>
   dict_contains (block_table s') (token_count s div block_size m)"
  by (auto simp: append_token_def Let_def dict_contains_dict_set split: if_splits prod.splits sum.splits)

text \<open>
  C2: \<^verbatim>\<open>append_token\<close> is atomic. When a block is needed and \<^verbatim>\<open>allocate_block\<close> raises \<open>e\<close>, the
  call raises the wrapped error carrying the request id and the token position, and the
  sequence and the pool are unchanged; any raise at all leaves both unchanged; when the call
  returns, \<open>token_count\<close> has grown by one and the logical block of the appended token is in
  the block table.
\<close>

theorem append_token_atomic:
  "(block_size m \<noteq> 0 \<and> \<not> dict_contains (block_table s) (token_count s div block_size m)
      \<and> fst (allocate_block m) = Inl e \<longrightarrow>
      append_token s m =
        (Inl (RuntimeError_failed_to_allocate (request_id s) (token_count s) e), s, m))
   \<and> (\<forall>e' s' m'. append_token s m = (Inl e', s', m') \<longrightarrow> s' = s \<and> m' = m)
   \<and> (\<forall>s' m'. append_token s m = (Inr (), s', m') \<longrightarrow>
        token_count s' = token_count s + 1
        \<and> dict_contains (block_table s') (token_count s div block_size m))"
proof (intro conjI allI impI)
  assume a: "block_size m \<noteq> 0 \<and> \<not> dict_contains (block_table s) (token_count s div block_size m)
      \<and> fst (allocate_block m) = Inl e"
  obtain r m1 where al: "allocate_block m = (r, m1)" by (cases "allocate_block m")
  with a have r: "r = Inl e" by simp
  with al have "m1 = m" by (simp add: allocate_block_fail_unchanged)
  with a al r show "append_token s m =
        (Inl (RuntimeError_failed_to_allocate (request_id s) (token_count s) e), s, m)"
    by (simp add: append_token_def)
next
  fix e' s' m' assume "append_token s m = (Inl e', s', m')"
  then show "s' = s" and "m' = m" by (simp_all add: append_token_fail_unchanged)
next
  fix s' m' assume "append_token s m = (Inr (), s', m')"
  then show "token_count s' = token_count s + 1"
    and "dict_contains (block_table s') (token_count s div block_size m)"
    by (simp_all add: append_token_ok_count append_token_ok_contains)
qed

theorem append_token_atomic_witness:
  "append_token (Sequence_init ''a'') (BlockManager_init 0 16 4 8 64 ''cpu'') =
     (Inl (RuntimeError_failed_to_allocate ''a'' 0 (RuntimeError_all_allocated 0)),
      Sequence_init ''a'', BlockManager_init 0 16 4 8 64 ''cpu'')
   \<and> append_token (Sequence_init ''a'') (BlockManager_init 1 16 4 8 64 ''cpu'') =
     (Inr (), \<lparr>request_id = ''a'', token_count = 1, block_table = [(0, 0)]\<rparr>,
      (BlockManager_init 1 16 4 8 64 ''cpu'')\<lparr>free_blocks := []\<rparr>)
   \<and> token_count \<lparr>request_id = ''a'', token_count = 1, block_table = [(0, 0)]\<rparr> =
       token_count (Sequence_init ''a'') + 1
   \<and> dict_contains (block_table \<lparr>request_id = ''a'', token_count = 1, block_table = [(0, 0)]\<rparr>)
       (token_count (Sequence_init ''a'') div block_size (BlockManager_init 1 16 4 8 64 ''cpu''))"
proof -
  let ?s = "Sequence_init ''a''"
  let ?m0 = "BlockManager_init 0 16 4 8 64 ''cpu''"
  let ?m1 = "BlockManager_init 1 16 4 8 64 ''cpu''"
  have h0: "block_size ?m0 \<noteq> 0 \<and> \<not> dict_contains (block_table ?s) (token_count ?s div block_size ?m0)
      \<and> fst (allocate_block ?m0) = Inl (RuntimeError_all_allocated 0)"
    by (simp add: Sequence_init_def BlockManager_init_def dict_contains_def allocate_block_def)
  have a0: "append_token ?s ?m0 =
     (Inl (RuntimeError_failed_to_allocate ''a'' 0 (RuntimeError_all_allocated 0)), ?s, ?m0)"
    using h0 append_token_atomic [of ?m0 ?s "RuntimeError_all_allocated 0"]
    by (simp add: Sequence_init_def)
  have h1: "append_token ?s ?m1 =
     (Inr (), \<lparr>request_id = ''a'', token_count = 1, block_table = [(0, 0)]\<rparr>, ?m1\<lparr>free_blocks := []\<rparr>)"
    by (simp add: append_token_def Sequence_init_def BlockManager_init_def dict_contains_def
        allocate_block_def)
  from a0 h1 append_token_atomic [of ?m1 ?s] show ?thesis by blast
qed

lemma append_tokens_loop_add:
  "append_tokens_loop s m (j + k) =
     (case append_tokens_loop s m j of
        (Inl e, s', m') \<Rightarrow> (Inl e, s', m')
      | (Inr u, s', m') \<Rightarrow> append_tokens_loop s' m' k)"
  by (induction j arbitrary: s m) (auto split: prod.splits sum.splits)

lemma append_tokens_loop_one: "append_tokens_loop s m (Suc 0) = append_token s m"
  by (auto split: prod.splits sum.splits)

lemma append_tokens_loop_snoc:
  "append_tokens_loop s m (Suc n) =
     (case append_tokens_loop s m n of
        (Inl e, s', m') \<Rightarrow> (Inl e, s', m')
      | (Inr u, s', m') \<Rightarrow> append_token s' m')"
proof -
  have "append_tokens_loop s m (n + Suc 0) =
     (case append_tokens_loop s m n of
        (Inl e, s', m') \<Rightarrow> (Inl e, s', m')
      | (Inr u, s', m') \<Rightarrow> append_token s' m')"
    by (simp only: append_tokens_loop_add append_tokens_loop_one)
  then show ?thesis by (simp only: add_Suc_right add_0_right)
qed

lemma append_tokens_loop_ok_count:
  "append_tokens_loop s m n = (Inr u, s', m') \<Longrightarrow> token_count s' = token_count s + int n"
proof (induction n arbitrary: s m)
  case 0
  then show ?case by simp
next
  case (Suc n)
  then show ?case
    by (auto split: prod.splits sum.splits dest!: append_token_ok_count)
qed

lemma append_tokens_loop_fail:
  "append_tokens_loop s m n = (Inl e, s', m') \<Longrightarrow>
   \<exists>k < n. append_tokens_loop s m k = (Inr (), s', m') \<and> append_token s' m' = (Inl e, s', m')"
proof (induction n arbitrary: s m)
  case 0
  then show ?case by simp
next
  case (Suc n)
  obtain r s1 m1 where a: "append_token s m = (r, s1, m1)" by (cases "append_token s m")
  show ?case
  proof (cases r)
    case (Inl e1)
    with a Suc.prems have "e1 = e" "s' = s1" "m' = m1" by simp_all
    moreover from a Inl have "s1 = s" "m1 = m" using append_token_fail_unchanged by blast+
    ultimately have "append_tokens_loop s m 0 = (Inr (), s', m') \<and> append_token s' m' = (Inl e, s', m')"
      using a Inl by simp
    then show ?thesis by blast
  next
    case (Inr u)
    with a Suc.prems have "append_tokens_loop s1 m1 n = (Inl e, s', m')" by simp
    from Suc.IH [OF this] obtain k where k: "k < n"
      "append_tokens_loop s1 m1 k = (Inr (), s', m')" "append_token s' m' = (Inl e, s', m')"
      by blast
    have "append_tokens_loop s m (Suc k) = (Inr (), s', m')"
      using a Inr k(2) by simp
    with k show ?thesis by (metis Suc_less_eq)
  qed
qed

text \<open>
  C8: \<^verbatim>\<open>append_tokens\<close> runs \<^verbatim>\<open>append_token\<close> \<open>n\<close> times in order and stops at the first raise.
  If it raises \<open>e\<close>, then for some \<open>k < n\<close> the sequence and the pool are exactly what \<open>k\<close>
  successful appends produce (so the blocks of those \<open>k\<close> tokens stay in the table),
  \<open>token_count\<close> has grown by \<open>k\<close>, and \<open>e\<close> is what the next \<^verbatim>\<open>append_token\<close> raises; conversely
  a raise after \<open>k < n\<close> successful appends is the outcome of the batch. A batch that returns
  has grown \<open>token_count\<close> by \<open>n\<close>, and a batch of \<open>n + 1\<close> is a batch of \<open>n\<close> followed by one
  more append. The batch starts from the sequence and pool it is given: a batch of \<open>n \<le> 0\<close>
  returns them unchanged, and a batch of \<open>n + 1\<close> is one \<^verbatim>\<open>append_token\<close> on them followed, if
  it returns, by a batch of \<open>n\<close> on what it leaves.
\<close>

theorem append_tokens_stops_at_first_failure:
  "(\<forall>e s' m'. append_tokens s m n = (Inl e, s', m') \<longrightarrow>
      (\<exists>k. 0 \<le> k \<and> k < n \<and> append_tokens s m k = (Inr (), s', m')
           \<and> append_token s' m' = (Inl e, s', m')
           \<and> token_count s' = token_count s + k))
   \<and> (\<forall>k e s1 m1 s2 m2. 0 \<le> k \<and> k < n \<and> append_tokens s m k = (Inr (), s1, m1)
          \<and> append_token s1 m1 = (Inl e, s2, m2) \<longrightarrow>
        append_tokens s m n = (Inl e, s1, m1))
   \<and> (\<forall>s' m'. append_tokens s m n = (Inr (), s', m') \<longrightarrow>
        token_count s' = token_count s + max 0 n)
   \<and> (0 \<le> n \<longrightarrow>
        append_tokens s m (n + 1) =
          (case append_tokens s m n of
             (Inl e, s', m') \<Rightarrow> (Inl e, s', m')
           | (Inr u, s', m') \<Rightarrow> append_token s' m'))
   \<and> (n \<le> 0 \<longrightarrow> append_tokens s m n = (Inr (), s, m))
   \<and> (0 \<le> n \<longrightarrow>
        append_tokens s m (n + 1) =
          (case append_token s m of
             (Inl e, s', m') \<Rightarrow> (Inl e, s', m')
           | (Inr u, s', m') \<Rightarrow> append_tokens s' m' n))"
proof (intro conjI allI impI)
  fix e s' m' assume "append_tokens s m n = (Inl e, s', m')"
  then have "append_tokens_loop s m (nat n) = (Inl e, s', m')" by (simp add: append_tokens_def)
  from append_tokens_loop_fail [OF this] obtain k where k: "k < nat n"
    "append_tokens_loop s m k = (Inr (), s', m')" "append_token s' m' = (Inl e, s', m')"
    by blast
  from k(2) have "token_count s' = token_count s + int k" by (rule append_tokens_loop_ok_count)
  with k have "0 \<le> int k \<and> int k < n \<and> append_tokens s m (int k) = (Inr (), s', m')
           \<and> append_token s' m' = (Inl e, s', m')
           \<and> token_count s' = token_count s + int k"
    by (simp add: append_tokens_def)
  then show "\<exists>k. 0 \<le> k \<and> k < n \<and> append_tokens s m k = (Inr (), s', m')
           \<and> append_token s' m' = (Inl e, s', m')
           \<and> token_count s' = token_count s + k" by blast
next
  fix k e s1 m1 s2 m2
  assume a: "0 \<le> k \<and> k < n \<and> append_tokens s m k = (Inr (), s1, m1)
          \<and> append_token s1 m1 = (Inl e, s2, m2)"
  then have u: "s2 = s1" "m2 = m1" using append_token_fail_unchanged by blast+
  from a obtain j where j: "nat n = nat k + Suc j"
    by (metis less_imp_Suc_add add_Suc_right nat_mono_iff zero_less_nat_eq nat_less_iff le_less_trans not_le linorder_not_less zless_nat_conj)
  have "append_tokens_loop s1 m1 (Suc j) = (Inl e, s1, m1)"
    using a u by simp
  moreover have "append_tokens_loop s m (nat k) = (Inr (), s1, m1)"
    using a by (simp add: append_tokens_def)
  ultimately have "append_tokens_loop s m (nat k + Suc j) = (Inl e, s1, m1)"
    by (simp only: append_tokens_loop_add prod.case sum.case)
  then show "append_tokens s m n = (Inl e, s1, m1)"
    using j by (simp add: append_tokens_def)
next
  fix s' m' assume "append_tokens s m n = (Inr (), s', m')"
  then have "append_tokens_loop s m (nat n) = (Inr (), s', m')" by (simp add: append_tokens_def)
  then have "token_count s' = token_count s + int (nat n)" by (rule append_tokens_loop_ok_count)
  then show "token_count s' = token_count s + max 0 n" by (simp add: max_def)
next
  assume "0 \<le> n"
  then have "nat (n + 1) = Suc (nat n)" by simp
  then show "append_tokens s m (n + 1) =
          (case append_tokens s m n of
             (Inl e, s', m') \<Rightarrow> (Inl e, s', m')
           | (Inr u, s', m') \<Rightarrow> append_token s' m')"
    by (simp only: append_tokens_def append_tokens_loop_snoc)
next
  assume "n \<le> 0"
  then have "nat n = 0" by simp
  then show "append_tokens s m n = (Inr (), s, m)"
    by (simp only: append_tokens_def append_tokens_loop.simps)
next
  assume "0 \<le> n"
  then have "nat (n + 1) = Suc (nat n)" by simp
  then show "append_tokens s m (n + 1) =
          (case append_token s m of
             (Inl e, s', m') \<Rightarrow> (Inl e, s', m')
           | (Inr u, s', m') \<Rightarrow> append_tokens s' m' n)"
    by (simp only: append_tokens_def append_tokens_loop.simps)
qed


theorem append_tokens_stops_at_first_failure_witness:
  "append_tokens (Sequence_init ''a'') (BlockManager_init 1 2 4 8 64 ''cpu'') 5 =
     (Inl (RuntimeError_failed_to_allocate ''a'' 2 (RuntimeError_all_allocated 1)),
      \<lparr>request_id = ''a'', token_count = 2, block_table = [(0, 0)]\<rparr>,
      (BlockManager_init 1 2 4 8 64 ''cpu'')\<lparr>free_blocks := []\<rparr>)
   \<and> (\<exists>k. 0 \<le> k \<and> k < 5
        \<and> append_tokens (Sequence_init ''a'') (BlockManager_init 1 2 4 8 64 ''cpu'') k =
            (Inr (), \<lparr>request_id = ''a'', token_count = 2, block_table = [(0, 0)]\<rparr>,
             (BlockManager_init 1 2 4 8 64 ''cpu'')\<lparr>free_blocks := []\<rparr>)
        \<and> token_count \<lparr>request_id = ''a'', token_count = 2, block_table = [(0, 0)]\<rparr> =
            token_count (Sequence_init ''a'') + k)
   \<and> append_tokens \<lparr>request_id = ''a'', token_count = 2, block_table = [(0, 0)]\<rparr>
        ((BlockManager_init 1 2 4 8 64 ''cpu'')\<lparr>free_blocks := []\<rparr>) 0 =
       (Inr (), \<lparr>request_id = ''a'', token_count = 2, block_table = [(0, 0)]\<rparr>,
        (BlockManager_init 1 2 4 8 64 ''cpu'')\<lparr>free_blocks := []\<rparr>)
   \<and> append_tokens \<lparr>request_id = ''a'', token_count = 2, block_table = [(0, 0)]\<rparr>
        ((BlockManager_init 1 2 4 8 64 ''cpu'')\<lparr>free_blocks := []\<rparr>) (- 3) =
       (Inr (), \<lparr>request_id = ''a'', token_count = 2, block_table = [(0, 0)]\<rparr>,
        (BlockManager_init 1 2 4 8 64 ''cpu'')\<lparr>free_blocks := []\<rparr>)
   \<and> append_tokens (Sequence_init ''a'') (BlockManager_init 1 2 4 8 64 ''cpu'') (0 + 1) =
       (Inr (), \<lparr>request_id = ''a'', token_count = 1, block_table = [(0, 0)]\<rparr>,
        (BlockManager_init 1 2 4 8 64 ''cpu'')\<lparr>free_blocks := []\<rparr>)"
proof -
  let ?s = "Sequence_init ''a''"
  let ?m = "BlockManager_init 1 2 4 8 64 ''cpu''"
  let ?s1 = "\<lparr>request_id = ''a'', token_count = 1, block_table = [(0, 0)]\<rparr>"
  let ?s2 = "\<lparr>request_id = ''a'', token_count = 2, block_table = [(0, 0)]\<rparr>"
  let ?m' = "?m\<lparr>free_blocks := []\<rparr>"
  have a: "append_tokens ?s ?m 5 =
     (Inl (RuntimeError_failed_to_allocate ''a'' 2 (RuntimeError_all_allocated 1)), ?s2, ?m')"
    by (simp add: append_tokens_def append_token_def Sequence_init_def BlockManager_init_def
        dict_contains_def allocate_block_def eval_nat_numeral)
  have t: "append_token ?s ?m = (Inr (), ?s1, ?m')"
    by (simp add: append_token_def Sequence_init_def BlockManager_init_def dict_contains_def
        allocate_block_def)
  have z: "append_tokens ?s1 ?m' 0 = (Inr (), ?s1, ?m')"
    using append_tokens_stops_at_first_failure [of ?s1 ?m' 0] by simp
  have one: "append_tokens ?s ?m (0 + 1) = (Inr (), ?s1, ?m')"
    using append_tokens_stops_at_first_failure [of ?s ?m 0] t z by simp
  have zero: "append_tokens ?s2 ?m' 0 = (Inr (), ?s2, ?m')"
    using append_tokens_stops_at_first_failure [of ?s2 ?m' 0] by simp
  have neg: "append_tokens ?s2 ?m' (- 3) = (Inr (), ?s2, ?m')"
    using append_tokens_stops_at_first_failure [of ?s2 ?m' "- 3"] by simp
  from a one zero neg append_tokens_stops_at_first_failure [of ?s ?m 5] show ?thesis by blast
qed

subsection \<open>Releasing a sequence's blocks\<close>

lemma free_block_fields:
  "free_block m b = (r, m') \<Longrightarrow> num_blocks m' = num_blocks m \<and> block_size m' = block_size m"
  by (auto simp: free_block_def split: if_splits)

lemma free_block_ok:
  "0 \<le> b \<Longrightarrow> b < num_blocks m \<Longrightarrow> b \<notin> set (free_blocks m) \<Longrightarrow>
   free_block m b = (Inr (), m\<lparr>free_blocks := free_blocks m @ [b]\<rparr>)"
  by (simp add: free_block_def)

lemma free_block_ok_iff:
  "free_block m b = (Inr u, m') \<longleftrightarrow>
   0 \<le> b \<and> b < num_blocks m \<and> b \<notin> set (free_blocks m) \<and> m' = m\<lparr>free_blocks := free_blocks m @ [b]\<rparr>"
  by (auto simp: free_block_def)

lemma free_block_fail_unchanged: "free_block m b = (Inl e, m') \<Longrightarrow> m' = m"
  by (auto simp: free_block_def split: if_splits)

lemma releasable_Nil: "releasable m []"
  by (simp add: releasable_def)

lemma releasable_Cons:
  "releasable m (b # ids) \<longleftrightarrow>
   0 \<le> b \<and> b < num_blocks m \<and> b \<notin> set (free_blocks m)
   \<and> releasable (m\<lparr>free_blocks := free_blocks m @ [b]\<rparr>) ids"
  by (auto simp: releasable_def)

lemma free_blocks_loop_ok:
  "releasable m ids \<Longrightarrow>
   free_blocks_loop m ids = (Inr (), m\<lparr>free_blocks := free_blocks m @ ids\<rparr>)"
proof (induction ids arbitrary: m)
  case Nil
  then show ?case by simp
next
  case (Cons b ids)
  from Cons.prems have b: "0 \<le> b" "b < num_blocks m" "b \<notin> set (free_blocks m)"
    and r: "releasable (m\<lparr>free_blocks := free_blocks m @ [b]\<rparr>) ids"
    by (simp_all add: releasable_Cons)
  from b have "free_block m b = (Inr (), m\<lparr>free_blocks := free_blocks m @ [b]\<rparr>)"
    by (rule free_block_ok)
  with Cons.IH [OF r] show ?case by simp
qed

lemma free_blocks_loop_returns:
  "free_blocks_loop m ids = (Inr u, m') \<Longrightarrow> releasable m ids"
proof (induction ids arbitrary: m)
  case Nil
  then show ?case by (simp add: releasable_Nil)
next
  case (Cons b ids)
  obtain r m1 where f: "free_block m b = (r, m1)" by (cases "free_block m b")
  with Cons.prems obtain u1 where r: "r = Inr u1" by (cases r) auto
  with f have m1: "0 \<le> b" "b < num_blocks m" "b \<notin> set (free_blocks m)"
    "m1 = m\<lparr>free_blocks := free_blocks m @ [b]\<rparr>"
    by (simp_all add: free_block_ok_iff)
  from Cons.prems f r have "free_blocks_loop m1 ids = (Inr u, m')" by simp
  then have "releasable m1 ids" by (rule Cons.IH)
  with m1 show ?case by (simp add: releasable_Cons)
qed

lemma free_blocks_loop_fail:
  "free_blocks_loop m ids = (Inl e, m') \<Longrightarrow>
   \<exists>k < length ids. releasable m (take k ids)
      \<and> m' = m\<lparr>free_blocks := free_blocks m @ take k ids\<rparr>
      \<and> free_block m' (ids ! k) = (Inl e, m')"
proof (induction ids arbitrary: m)
  case Nil
  then show ?case by simp
next
  case (Cons b ids)
  obtain r m1 where f: "free_block m b = (r, m1)" by (cases "free_block m b")
  show ?case
  proof (cases r)
    case (Inl e1)
    with f Cons.prems have "e1 = e" "m' = m1" by simp_all
    moreover from f Inl have "m1 = m" by (simp add: free_block_fail_unchanged)
    ultimately have "releasable m (take 0 (b # ids))
      \<and> m' = m\<lparr>free_blocks := free_blocks m @ take 0 (b # ids)\<rparr>
      \<and> free_block m' ((b # ids) ! 0) = (Inl e, m')"
      using f Inl by (simp add: releasable_Nil)
    then show ?thesis by blast
  next
    case (Inr u1)
    with f have m1: "0 \<le> b" "b < num_blocks m" "b \<notin> set (free_blocks m)"
      "m1 = m\<lparr>free_blocks := free_blocks m @ [b]\<rparr>"
      by (simp_all add: free_block_ok_iff)
    from Cons.prems f Inr have "free_blocks_loop m1 ids = (Inl e, m')" by simp
    from Cons.IH [OF this] obtain k where k: "k < length ids" "releasable m1 (take k ids)"
      "m' = m1\<lparr>free_blocks := free_blocks m1 @ take k ids\<rparr>"
      "free_block m' (ids ! k) = (Inl e, m')"
      by blast
    have "Suc k < length (b # ids) \<and> releasable m (take (Suc k) (b # ids))
      \<and> m' = m\<lparr>free_blocks := free_blocks m @ take (Suc k) (b # ids)\<rparr>
      \<and> free_block m' ((b # ids) ! Suc k) = (Inl e, m')"
      using k m1 by (simp add: releasable_Cons)
    then show ?thesis by blast
  qed
qed

lemma free_blocks_loop_returns_iff:
  "fst (free_blocks_loop m ids) = Inr () \<longleftrightarrow> releasable m ids"
proof
  assume "fst (free_blocks_loop m ids) = Inr ()"
  then obtain m' where "free_blocks_loop m ids = (Inr (), m')"
    by (cases "free_blocks_loop m ids") auto
  then show "releasable m ids" by (rule free_blocks_loop_returns)
next
  assume "releasable m ids"
  then show "fst (free_blocks_loop m ids) = Inr ()" by (simp add: free_blocks_loop_ok)
qed

text \<open>
  C9: the releases of \<^verbatim>\<open>free_all_blocks\<close> all succeed exactly when the table's physical
  identifiers are releasable (in range, not free, pairwise distinct). In that case the call
  returns with the block table cleared, \<open>token_count\<close> reset to 0 and the identifiers appended
  to the free list. Otherwise it raises the error of the first release that fails, and the
  sequence is exactly as before: neither the block table nor \<open>token_count\<close> is cleared, and
  the pool holds the identifiers released before the failure.
\<close>

theorem free_all_blocks_clears_iff_all_released:
  "(fst (free_blocks_loop m (dict_values (block_table s))) = Inr ()
      \<longleftrightarrow> releasable m (dict_values (block_table s)))
   \<and> (releasable m (dict_values (block_table s)) \<longrightarrow>
        free_all_blocks s m =
          (Inr (), s\<lparr>block_table := [], token_count := 0\<rparr>,
           m\<lparr>free_blocks := free_blocks m @ dict_values (block_table s)\<rparr>))
   \<and> (\<not> releasable m (dict_values (block_table s)) \<longrightarrow>
        (\<exists>e k m'. free_all_blocks s m = (Inl e, s, m')
           \<and> k < length (dict_values (block_table s))
           \<and> m' = m\<lparr>free_blocks := free_blocks m @ take k (dict_values (block_table s))\<rparr>
           \<and> free_block m' (dict_values (block_table s) ! k) = (Inl e, m')))"
proof (intro conjI impI)
  show "fst (free_blocks_loop m (dict_values (block_table s))) = Inr ()
      \<longleftrightarrow> releasable m (dict_values (block_table s))"
    by (rule free_blocks_loop_returns_iff)
next
  assume "releasable m (dict_values (block_table s))"
  then show "free_all_blocks s m =
          (Inr (), s\<lparr>block_table := [], token_count := 0\<rparr>,
           m\<lparr>free_blocks := free_blocks m @ dict_values (block_table s)\<rparr>)"
    by (simp add: free_all_blocks_def free_blocks_loop_ok)
next
  let ?vals = "dict_values (block_table s)"
  assume n: "\<not> releasable m ?vals"
  obtain r m' where l: "free_blocks_loop m ?vals = (r, m')" by (cases "free_blocks_loop m ?vals")
  with n obtain e where r: "r = Inl e"
    using free_blocks_loop_returns by (cases r) auto
  from l r have a: "free_all_blocks s m = (Inl e, s, m')" by (simp add: free_all_blocks_def)
  from l r free_blocks_loop_fail obtain k where "k < length ?vals"
    "m' = m\<lparr>free_blocks := free_blocks m @ take k ?vals\<rparr>"
    "free_block m' (?vals ! k) = (Inl e, m')" by blast
  with a show "\<exists>e k m'. free_all_blocks s m = (Inl e, s, m')
           \<and> k < length ?vals
           \<and> m' = m\<lparr>free_blocks := free_blocks m @ take k ?vals\<rparr>
           \<and> free_block m' (?vals ! k) = (Inl e, m')" by blast
qed

theorem free_all_blocks_clears_iff_all_released_witness:
  "releasable \<lparr>num_blocks = 2, block_size = 1, num_layers = 4, num_heads = 8, head_size = 64,
       device = ''cpu'', free_blocks = []\<rparr> [1, 0]
   \<and> free_all_blocks \<lparr>request_id = ''a'', token_count = 2, block_table = [(0, 1), (1, 0)]\<rparr>
       \<lparr>num_blocks = 2, block_size = 1, num_layers = 4, num_heads = 8, head_size = 64,
        device = ''cpu'', free_blocks = []\<rparr> =
     (Inr (), \<lparr>request_id = ''a'', token_count = 0, block_table = []\<rparr>,
      \<lparr>num_blocks = 2, block_size = 1, num_layers = 4, num_heads = 8, head_size = 64,
       device = ''cpu'', free_blocks = [1, 0]\<rparr>)
   \<and> \<not> releasable \<lparr>num_blocks = 2, block_size = 1, num_layers = 4, num_heads = 8, head_size = 64,
       device = ''cpu'', free_blocks = [0]\<rparr> [1, 0]
   \<and> (\<exists>e m'. free_all_blocks \<lparr>request_id = ''a'', token_count = 2, block_table = [(0, 1), (1, 0)]\<rparr>
       \<lparr>num_blocks = 2, block_size = 1, num_layers = 4, num_heads = 8, head_size = 64,
        device = ''cpu'', free_blocks = [0]\<rparr> =
     (Inl e, \<lparr>request_id = ''a'', token_count = 2, block_table = [(0, 1), (1, 0)]\<rparr>, m'))"
proof -
  let ?s = "\<lparr>request_id = ''a'', token_count = 2, block_table = [(0, 1), (1, 0)]\<rparr>"
  let ?m0 = "\<lparr>num_blocks = 2, block_size = 1, num_layers = 4, num_heads = 8, head_size = 64,
       device = ''cpu'', free_blocks = []\<rparr>"
  let ?m1 = "\<lparr>num_blocks = 2, block_size = 1, num_layers = 4, num_heads = 8, head_size = 64,
       device = ''cpu'', free_blocks = [0]\<rparr>"
  have v: "dict_values (block_table ?s) = [1, 0]" by (simp add: dict_values_def)
  have r0: "releasable ?m0 [1, 0]" by (simp add: releasable_def)
  have r1: "\<not> releasable ?m1 [1, 0]" by (simp add: releasable_def)
  from r0 r1 v free_all_blocks_clears_iff_all_released [of ?m0 ?s]
    free_all_blocks_clears_iff_all_released [of ?m1 ?s]
  show ?thesis by auto
qed

text \<open>
  C10: when \<^verbatim>\<open>free_all_blocks\<close> raises at entry \<open>k\<close> of the table's values, the sequence is
  unchanged and the free list has gained entries \<open>0..k-1\<close>: each of those identifiers is now
  both in the free list and in the sequence's block table. If \<open>k > 0\<close>, calling
  \<^verbatim>\<open>free_all_blocks\<close> again raises the already-free error on the first entry and changes
  nothing.
\<close>

theorem free_all_blocks_partial_failure:
  assumes "free_all_blocks s m = (Inl e, s', m')"
  shows "\<exists>k < length (dict_values (block_table s)).
           s' = s
         \<and> free_blocks m' = free_blocks m @ take k (dict_values (block_table s))
         \<and> free_block m' (dict_values (block_table s) ! k) = (Inl e, m')
         \<and> (\<forall>b \<in> set (take k (dict_values (block_table s))).
               b \<in> set (free_blocks m') \<and> b \<in> set (dict_values (block_table s')))
         \<and> (0 < k \<longrightarrow>
               free_all_blocks s' m' =
                 (Inl (ValueError_already_free (hd (dict_values (block_table s)))), s', m'))"
proof -
  let ?vals = "dict_values (block_table s)"
  from assms have s': "s' = s" and l: "free_blocks_loop m ?vals = (Inl e, m')"
    by (auto simp: free_all_blocks_def split: prod.splits sum.splits)
  from free_blocks_loop_fail [OF l] obtain k where k: "k < length ?vals"
    "releasable m (take k ?vals)"
    "m' = m\<lparr>free_blocks := free_blocks m @ take k ?vals\<rparr>"
    "free_block m' (?vals ! k) = (Inl e, m')" by blast
  have both: "\<forall>b \<in> set (take k ?vals). b \<in> set (free_blocks m') \<and> b \<in> set (dict_values (block_table s'))"
    using k(3) s' by (auto dest: in_set_takeD)
  have again: "free_all_blocks s' m' = (Inl (ValueError_already_free (hd ?vals)), s', m')" if "0 < k"
  proof -
    from k(1) obtain v rest where v: "?vals = v # rest" by (cases ?vals) auto
    with that have in_take: "v \<in> set (take k ?vals)" by (cases k) auto
    with k(2) have "0 \<le> v" "v < num_blocks m" by (auto simp: releasable_def)
    moreover from k(3) have "num_blocks m' = num_blocks m" by simp
    moreover from in_take k(3) have "v \<in> set (free_blocks m')" by simp
    ultimately have "free_block m' v = (Inl (ValueError_already_free v), m')"
      by (simp add: free_block_def)
    then show ?thesis using v s' by (simp add: free_all_blocks_def)
  qed
  from k(1) s' k(3) k(4) both again show ?thesis by auto
qed

theorem free_all_blocks_partial_failure_witness:
  "free_all_blocks \<lparr>request_id = ''a'', token_count = 2, block_table = [(0, 1), (1, 0)]\<rparr>
       \<lparr>num_blocks = 2, block_size = 1, num_layers = 4, num_heads = 8, head_size = 64,
        device = ''cpu'', free_blocks = [0]\<rparr> =
     (Inl (ValueError_already_free 0),
      \<lparr>request_id = ''a'', token_count = 2, block_table = [(0, 1), (1, 0)]\<rparr>,
      \<lparr>num_blocks = 2, block_size = 1, num_layers = 4, num_heads = 8, head_size = 64,
        device = ''cpu'', free_blocks = [0, 1]\<rparr>)
   \<and> (\<exists>k < (2::nat). 0 < k
        \<and> free_all_blocks \<lparr>request_id = ''a'', token_count = 2, block_table = [(0, 1), (1, 0)]\<rparr>
            \<lparr>num_blocks = 2, block_size = 1, num_layers = 4, num_heads = 8, head_size = 64,
             device = ''cpu'', free_blocks = [0, 1]\<rparr> =
          (Inl (ValueError_already_free 1),
           \<lparr>request_id = ''a'', token_count = 2, block_table = [(0, 1), (1, 0)]\<rparr>,
           \<lparr>num_blocks = 2, block_size = 1, num_layers = 4, num_heads = 8, head_size = 64,
            device = ''cpu'', free_blocks = [0, 1]\<rparr>))"
proof -
  let ?s = "\<lparr>request_id = ''a'', token_count = 2, block_table = [(0, 1), (1, 0)]\<rparr>"
  let ?m = "\<lparr>num_blocks = 2, block_size = 1, num_layers = 4, num_heads = 8, head_size = 64,
       device = ''cpu'', free_blocks = [0]\<rparr>"
  let ?m' = "\<lparr>num_blocks = 2, block_size = 1, num_layers = 4, num_heads = 8, head_size = 64,
       device = ''cpu'', free_blocks = [0, 1]\<rparr>"
  have a: "free_all_blocks ?s ?m = (Inl (ValueError_already_free 0), ?s, ?m')"
    by (simp add: free_all_blocks_def dict_values_def free_block_def)
  have v: "dict_values (block_table ?s) = [1, 0]" by (simp add: dict_values_def)
  from free_all_blocks_partial_failure [OF a] obtain k where
    k: "k < length (dict_values (block_table ?s))"
       "free_blocks ?m' = free_blocks ?m @ take k (dict_values (block_table ?s))"
       "0 < k \<longrightarrow> free_all_blocks ?s ?m' =
          (Inl (ValueError_already_free (hd (dict_values (block_table ?s)))), ?s, ?m')"
    by blast
  from k(2) v have pos: "0 < k" by (cases k) simp_all
  from k(1) v have "k < 2" by simp
  moreover from k(3) pos v
  have "free_all_blocks ?s ?m' = (Inl (ValueError_already_free 1), ?s, ?m')" by simp
  ultimately show ?thesis using a pos by blast
qed

subsection \<open>Block arithmetic\<close>

lemma block_bounds:
  fixes t bs :: int
  assumes "0 < bs"
  shows "t div bs * bs \<le> t" and "t < t div bs * bs + bs"
proof -
  have e: "t div bs * bs + t mod bs = t" by simp
  have "0 \<le> t mod bs" "t mod bs < bs" using assms by simp_all
  with e show "t div bs * bs \<le> t" and "t < t div bs * bs + bs" by linarith+
qed

lemma mult_lt_ceil:
  fixes t bs j :: int
  assumes "0 < bs"
  shows "j * bs < t \<longleftrightarrow> j < (t + bs - 1) div bs"
proof
  let ?c = "(t + bs - 1) div bs"
  assume l: "j * bs < t"
  show "j < ?c"
  proof (rule ccontr)
    assume "\<not> j < ?c"
    then have "?c * bs \<le> j * bs" using assms by (simp add: mult_right_mono)
    moreover have "t + bs - 1 < ?c * bs + bs" using assms by (rule block_bounds(2))
    ultimately show False using l by linarith
  qed
next
  let ?c = "(t + bs - 1) div bs"
  assume "j < ?c"
  then have "j + 1 \<le> ?c" by simp
  then have "(j + 1) * bs \<le> ?c * bs" using assms by (simp only: mult_right_mono less_imp_le)
  moreover have "?c * bs \<le> t + bs - 1" using assms by (rule block_bounds(1))
  moreover have "(j + 1) * bs = j * bs + bs" by (simp add: algebra_simps)
  ultimately show "j * bs < t" by linarith
qed

lemma div_eq_iff_block:
  fixes k bs j :: int
  assumes "0 < bs"
  shows "k div bs = j \<longleftrightarrow> j * bs \<le> k \<and> k < j * bs + bs"
proof
  assume "k div bs = j"
  with block_bounds [OF assms, of k] show "j * bs \<le> k \<and> k < j * bs + bs" by simp
next
  let ?q = "k div bs"
  assume a: "j * bs \<le> k \<and> k < j * bs + bs"
  note b = block_bounds [OF assms, of k]
  show "?q = j"
  proof (rule ccontr)
    assume "?q \<noteq> j"
    then consider "?q + 1 \<le> j" | "j + 1 \<le> ?q" by linarith
    then show False
    proof cases
      case 1
      then have "(?q + 1) * bs \<le> j * bs" using assms by (simp only: mult_right_mono less_imp_le)
      moreover have "(?q + 1) * bs = ?q * bs + bs" by (simp add: algebra_simps)
      ultimately show False using a b by linarith
    next
      case 2
      then have "(j + 1) * bs \<le> ?q * bs" using assms by (simp only: mult_right_mono less_imp_le)
      moreover have "(j + 1) * bs = j * bs + bs" by (simp add: algebra_simps)
      ultimately show False using a b by linarith
    qed
  qed
qed

lemma ceil_succ:
  fixes t bs :: int
  assumes "0 < bs"
  shows "(t + 1 + bs - 1) div bs = t div bs + 1"
  using assms by simp

lemma ceil_when_partial:
  fixes t bs :: int
  assumes "0 < bs" "t div bs < (t + bs - 1) div bs"
  shows "(t + bs - 1) div bs = t div bs + 1"
proof -
  have "t < (t div bs + 1) * bs" using block_bounds(2) [OF assms(1), of t] by (simp add: algebra_simps)
  then have "\<not> (t div bs + 1) * bs < t" by simp
  then have "\<not> t div bs + 1 < (t + bs - 1) div bs"
    using mult_lt_ceil [OF assms(1), of "t div bs + 1" t] by blast
  with assms(2) show ?thesis by linarith
qed

lemma ceil_when_full:
  fixes t bs :: int
  assumes "0 < bs" "\<not> t div bs < (t + bs - 1) div bs"
  shows "(t + bs - 1) div bs = t div bs" and "t div bs * bs = t"
proof -
  have "(t div bs - 1) * bs < t"
    using block_bounds(1) [OF assms(1), of t] assms(1) by (simp add: algebra_simps)
  then have "t div bs - 1 < (t + bs - 1) div bs"
    using mult_lt_ceil [OF assms(1), of "t div bs - 1" t] by blast
  with assms(2) show "(t + bs - 1) div bs = t div bs" by linarith
  from assms(2) have "\<not> t div bs * bs < t"
    using mult_lt_ceil [OF assms(1), of "t div bs" t] by blast
  with block_bounds(1) [OF assms(1), of t] show "t div bs * bs = t" by linarith
qed

lemma ceiling_divide_eq:
  fixes t bs :: int
  assumes "0 < bs"
  shows "\<lceil>real_of_int t / real_of_int bs\<rceil> = (t + bs - 1) div bs"
proof (rule ceiling_unique)
  let ?c = "(t + bs - 1) div bs"
  have "?c - 1 < ?c" by simp
  then have "(?c - 1) * bs < t"
    using mult_lt_ceil [OF assms, of "?c - 1" t] by blast
  then have "real_of_int ((?c - 1) * bs) < real_of_int t" by (simp only: of_int_less_iff)
  then show "real_of_int ?c - 1 < real_of_int t / real_of_int bs"
    using assms by (simp add: pos_less_divide_eq)
  have "\<not> ?c < ?c" by simp
  then have "\<not> ?c * bs < t"
    using mult_lt_ceil [OF assms, of ?c t] by blast
  then have "t \<le> ?c * bs" by simp
  then have "real_of_int t \<le> real_of_int (?c * bs)" by (simp only: of_int_le_iff)
  then show "real_of_int t / real_of_int bs \<le> real_of_int ?c"
    using assms by (simp add: pos_divide_le_eq)
qed

subsection \<open>The block table along a history of appends\<close>

lemma append_each_snoc:
  "append_each s (ms @ [m]) =
     (case append_each s ms of
        None \<Rightarrow> None
      | Some s' \<Rightarrow> (case append_token s' m of (Inl e, s'', m') \<Rightarrow> None | (Inr u, s'', m') \<Rightarrow> Some s''))"
  by (induction ms arbitrary: s) (auto split: prod.splits sum.splits option.splits)


lemma append_token_returns:
  assumes "append_token s m = (Inr u, s', m')"
  shows "block_size m \<noteq> 0"
    and "dict_contains (block_table s) (token_count s div block_size m) \<Longrightarrow>
           s' = s\<lparr>token_count := token_count s + 1\<rparr> \<and> m' = m"
    and "\<not> dict_contains (block_table s) (token_count s div block_size m) \<Longrightarrow>
           \<exists>p. allocate_block m = (Inr p, m')
             \<and> s' = s\<lparr>block_table := block_table s @ [(token_count s div block_size m, p)],
                      token_count := token_count s + 1\<rparr>"
  using assms
  by (auto simp: append_token_def Let_def dict_set_fresh split: if_splits prod.splits sum.splits)

lemma map_of_snoc_old: "map_of d j = Some p \<Longrightarrow> map_of (d @ [(k, v)]) j = Some p"
  by (simp add: map_add_Some_iff)

lemma map_of_snoc_new: "k \<notin> set (map fst d) \<Longrightarrow> map_of (d @ [(k, v)]) k = Some v"
  by (simp add: map_add_Some_iff map_of_eq_None_iff)

lemma append_each_history:
  assumes "0 < bs" "\<forall>m \<in> set ms. block_size m = bs"
    and "append_each (Sequence_init rid) ms = Some s"
  shows "token_count s = int (length ms)
    \<and> map fst (block_table s) = [0..(int (length ms) + bs - 1) div bs - 1]
    \<and> (\<forall>j. 0 \<le> j \<and> j * bs < int (length ms) \<longrightarrow>
          (\<exists>p. map_of (block_table s) j = Some p
              \<and> fst (allocate_block (ms ! nat (j * bs))) = Inr p))"
  using assms(2,3)
proof (induction ms arbitrary: s rule: rev_induct)
  case Nil
  then have "s = Sequence_init rid" by simp
  moreover have "(bs - 1) div bs = 0" using assms(1) by (simp add: div_pos_pos_trivial)
  moreover have "\<And>j. 0 \<le> j \<Longrightarrow> \<not> j * bs < 0"
    using assms(1) by (simp add: mult_nonneg_nonneg not_less)
  ultimately show ?case by (simp add: Sequence_init_def)
next
  case (snoc m ms)
  let ?t = "int (length ms)"
  let ?c = "(?t + bs - 1) div bs"
  let ?q = "?t div bs"
  from snoc.prems(2) obtain s0 u m' where s0: "append_each (Sequence_init rid) ms = Some s0"
    and step: "append_token s0 m = (Inr u, s, m')"
    by (auto simp: append_each_snoc split: option.splits prod.splits sum.splits)
  from snoc.prems(1) have bsm: "block_size m = bs" and all: "\<forall>m \<in> set ms. block_size m = bs"
    by simp_all
  from snoc.IH [OF all s0] have tc: "token_count s0 = ?t"
    and keys: "map fst (block_table s0) = [0..?c - 1]"
    and vals: "\<And>j. 0 \<le> j \<Longrightarrow> j * bs < ?t \<Longrightarrow>
          \<exists>p. map_of (block_table s0) j = Some p \<and> fst (allocate_block (ms ! nat (j * bs))) = Inr p"
    by blast+
  have q0: "0 \<le> ?q" using assms(1) by (simp add: pos_imp_zdiv_nonneg_iff)
  have contains: "dict_contains (block_table s0) ?q \<longleftrightarrow> ?q < ?c"
    using q0 by (auto simp: dict_contains_def keys simp del: set_map)
  have len: "int (length (ms @ [m])) = ?t + 1" by simp
  have c': "(?t + 1 + bs - 1) div bs = ?q + 1" using assms(1) by (rule ceil_succ)
  have old: "(ms @ [m]) ! nat (j * bs) = ms ! nat (j * bs)" if "0 \<le> j" "j * bs < ?t" for j
  proof -
    from that(1) assms(1) have "0 \<le> j * bs" by simp
    with that(2) have "nat (j * bs) < length ms" by (simp add: nat_less_iff)
    then show ?thesis by (simp add: nth_append)
  qed
  show ?case
  proof (cases "?q < ?c")
    case True
    with contains append_token_returns(2) [OF step] tc bsm
    have s: "s = s0\<lparr>token_count := ?t + 1\<rparr>" by simp
    from True have c: "?c = ?q + 1" using assms(1) by (simp add: ceil_when_partial)
    have lt: "j * bs < ?t" if "j * bs < ?t + 1" for j
    proof -
      from True have "?q * bs < ?t" using mult_lt_ceil [OF assms(1), of ?q ?t] by blast
      have "j < (?t + 1 + bs - 1) div bs" using that mult_lt_ceil [OF assms(1), of j "?t + 1"] by simp
      then have "j < ?c" using c c' by simp
      then show ?thesis using mult_lt_ceil [OF assms(1), of j ?t] by blast
    qed
    have 1: "token_count s = int (length (ms @ [m]))" using s by simp
    have 2: "map fst (block_table s) = [0..(int (length (ms @ [m])) + bs - 1) div bs - 1]"
      using s keys c c' by (simp only: len) simp
    have 3: "\<exists>p. map_of (block_table s) j = Some p
              \<and> fst (allocate_block ((ms @ [m]) ! nat (j * bs))) = Inr p"
      if "0 \<le> j \<and> j * bs < int (length (ms @ [m]))" for j
    proof -
      from that have j: "0 \<le> j" "j * bs < ?t" using lt by simp_all
      from vals [OF j] old [OF j] s show ?thesis by simp
    qed
    from 1 2 3 show ?thesis by blast
  next
    case False
    with contains have nc: "\<not> dict_contains (block_table s0) (token_count s0 div block_size m)"
      using tc bsm by simp
    from append_token_returns(3) [OF step nc] tc bsm obtain p where
      al: "allocate_block m = (Inr p, m')"
      and s: "s = s0\<lparr>block_table := block_table s0 @ [(?q, p)], token_count := ?t + 1\<rparr>"
      by auto
    from False have c: "?c = ?q" and full: "?q * bs = ?t"
      using assms(1) by (simp_all add: ceil_when_full)
    have 1: "token_count s = int (length (ms @ [m]))" using s by simp
    have "[0..?q] = [0..?q - 1] @ [?q]" using q0 by (simp add: upto_rec2)
    then have 2: "map fst (block_table s) = [0..(int (length (ms @ [m])) + bs - 1) div bs - 1]"
      using s keys c c' by (simp only: len) simp
    have fresh: "?q \<notin> set (map fst (block_table s0))"
      using nc tc bsm by (simp add: dict_contains_def)
    have 3: "\<exists>p. map_of (block_table s) j = Some p
              \<and> fst (allocate_block ((ms @ [m]) ! nat (j * bs))) = Inr p"
      if "0 \<le> j \<and> j * bs < int (length (ms @ [m]))" for j
    proof (cases "j * bs < ?t")
      case True
      with that have j: "0 \<le> j" "j * bs < ?t" by simp_all
      from vals [OF j] obtain p' where p': "map_of (block_table s0) j = Some p'"
        "fst (allocate_block (ms ! nat (j * bs))) = Inr p'" by blast
      from p'(1) have "map_of (block_table s0 @ [(?q, p)]) j = Some p'" by (rule map_of_snoc_old)
      then have "map_of (block_table s) j = Some p'" using s by simp
      with p'(2) old [OF j] show ?thesis by simp
    next
      case False
      with that have "j * bs = ?t" by simp
      with full have "j * bs = ?q * bs" by simp
      with assms(1) have jq: "j = ?q" by simp
      have "map_of (block_table s0 @ [(?q, p)]) ?q = Some p" using fresh by (rule map_of_snoc_new)
      then have "map_of (block_table s) ?q = Some p" using s by simp
      moreover have "(ms @ [m]) ! nat (?q * bs) = m" using full by simp
      ultimately show ?thesis using al jq by simp
    qed
    from 1 2 3 show ?thesis by blast
  qed
qed


lemma append_token_keeps_entries:
  assumes "append_token s m = (Inr u, s', m')" "map_of (block_table s) j = Some p"
  shows "map_of (block_table s') j = Some p"
proof (cases "dict_contains (block_table s) (token_count s div block_size m)")
  case True
  from append_token_returns(2) [OF assms(1) True] assms(2) show ?thesis by simp
next
  case False
  from append_token_returns(3) [OF assms(1) False] obtain q where
    "s' = s\<lparr>block_table := block_table s @ [(token_count s div block_size m, q)],
              token_count := token_count s + 1\<rparr>" by blast
  moreover from assms(2)
  have "map_of (block_table s @ [(token_count s div block_size m, q)]) j = Some p"
    by (rule map_of_snoc_old)
  ultimately show ?thesis by simp
qed

text \<open>
  C3: \<^verbatim>\<open>get_physical_block\<close> raises the invalid-token-index error for a negative index and
  for one at or beyond \<open>token_count\<close>, and the logical-block-not-found error for an index in
  range whose logical block is not in the table. For a sequence built from a fresh one by
  successful appends (block size positive), every index \<open>k\<close> in range translates to offset
  \<open>k mod block_size\<close> and to the identifier that \<^verbatim>\<open>allocate_block\<close> returned on the pool as it
  was when the first token of logical block \<open>k div block_size\<close> was appended; and an append
  that returns never alters an entry that is already in the table.
\<close>

theorem get_physical_block_correct:
  "(k < 0 \<or> token_count s \<le> k \<longrightarrow>
      get_physical_block s k m = Inl (ValueError_invalid_token_index k (token_count s)))
   \<and> (0 \<le> k \<and> k < token_count s \<and> block_size m \<noteq> 0
        \<and> \<not> dict_contains (block_table s) (k div block_size m) \<longrightarrow>
      get_physical_block s k m = Inl (ValueError_logical_block_not_found (k div block_size m) k))
   \<and> (0 < block_size m \<and> (\<forall>m' \<in> set ms. block_size m' = block_size m)
        \<and> append_each (Sequence_init rid) ms = Some s \<and> 0 \<le> k \<and> k < token_count s \<longrightarrow>
      (\<exists>p. fst (allocate_block (ms ! nat (k div block_size m * block_size m))) = Inr p
          \<and> get_physical_block s k m = Inr (p, k mod block_size m)))
   \<and> (\<forall>s' m1 m2 j p. append_token s m1 = (Inr (), s', m2) \<and> map_of (block_table s) j = Some p \<longrightarrow>
        map_of (block_table s') j = Some p)"
proof (intro conjI impI allI)
  assume "k < 0 \<or> token_count s \<le> k"
  then show "get_physical_block s k m = Inl (ValueError_invalid_token_index k (token_count s))"
    by (auto simp: get_physical_block_def)
next
  assume "0 \<le> k \<and> k < token_count s \<and> block_size m \<noteq> 0
        \<and> \<not> dict_contains (block_table s) (k div block_size m)"
  moreover then have "map_of (block_table s) (k div block_size m) = None"
    by (simp add: dict_contains_def map_of_eq_None_iff)
  ultimately show "get_physical_block s k m =
      Inl (ValueError_logical_block_not_found (k div block_size m) k)"
    by (simp add: get_physical_block_def)
next
  let ?bs = "block_size m"
  assume a: "0 < ?bs \<and> (\<forall>m' \<in> set ms. block_size m' = ?bs)
        \<and> append_each (Sequence_init rid) ms = Some s \<and> 0 \<le> k \<and> k < token_count s"
  then have bs: "0 < ?bs" and all: "\<forall>m' \<in> set ms. block_size m' = ?bs"
    and run: "append_each (Sequence_init rid) ms = Some s" and k: "0 \<le> k" "k < token_count s"
    by simp_all
  note h = append_each_history [OF bs all run]
  have "0 \<le> k div ?bs" using bs k(1) by (simp add: pos_imp_zdiv_nonneg_iff)
  moreover have "k div ?bs * ?bs < int (length ms)"
    using block_bounds(1) [OF bs, of k] k(2) h by simp
  ultimately obtain p where p: "map_of (block_table s) (k div ?bs) = Some p"
    "fst (allocate_block (ms ! nat (k div ?bs * ?bs))) = Inr p"
    using h by blast
  from p(1) k bs have "get_physical_block s k m = Inr (p, k mod ?bs)"
    by (simp add: get_physical_block_def)
  with p(2) show "\<exists>p. fst (allocate_block (ms ! nat (k div ?bs * ?bs))) = Inr p
          \<and> get_physical_block s k m = Inr (p, k mod ?bs)" by blast
next
  fix s' m1 m2 j p
  assume "append_token s m1 = (Inr (), s', m2) \<and> map_of (block_table s) j = Some p"
  then show "map_of (block_table s') j = Some p"
    using append_token_keeps_entries by blast
qed

theorem get_physical_block_correct_witness:
  "get_physical_block \<lparr>request_id = ''a'', token_count = 3, block_table = [(0, 1), (1, 0)]\<rparr> 3
       (BlockManager_init 2 2 4 8 64 ''cpu'') = Inl (ValueError_invalid_token_index 3 3)
   \<and> get_physical_block \<lparr>request_id = ''a'', token_count = 3, block_table = [(0, 1), (1, 0)]\<rparr> (- 1)
       (BlockManager_init 2 2 4 8 64 ''cpu'') = Inl (ValueError_invalid_token_index (- 1) 3)
   \<and> get_physical_block \<lparr>request_id = ''a'', token_count = 3, block_table = [(0, 1)]\<rparr> 2
       (BlockManager_init 2 2 4 8 64 ''cpu'') = Inl (ValueError_logical_block_not_found 1 2)
   \<and> append_each (Sequence_init ''a'')
        [BlockManager_init 2 2 4 8 64 ''cpu'',
         (BlockManager_init 2 2 4 8 64 ''cpu'')\<lparr>free_blocks := [0]\<rparr>,
         (BlockManager_init 2 2 4 8 64 ''cpu'')\<lparr>free_blocks := [0]\<rparr>] =
       Some \<lparr>request_id = ''a'', token_count = 3, block_table = [(0, 1), (1, 0)]\<rparr>
   \<and> fst (allocate_block ((BlockManager_init 2 2 4 8 64 ''cpu'')\<lparr>free_blocks := [0]\<rparr>)) = Inr 0
   \<and> get_physical_block \<lparr>request_id = ''a'', token_count = 3, block_table = [(0, 1), (1, 0)]\<rparr> 2
       (BlockManager_init 2 2 4 8 64 ''cpu'') = Inr (0, 0)
   \<and> fst (allocate_block (BlockManager_init 2 2 4 8 64 ''cpu'')) = Inr 1
   \<and> get_physical_block \<lparr>request_id = ''a'', token_count = 3, block_table = [(0, 1), (1, 0)]\<rparr> 1
       (BlockManager_init 2 2 4 8 64 ''cpu'') = Inr (1, 1)"
proof -
  let ?m0 = "BlockManager_init 2 2 4 8 64 ''cpu''"
  let ?m1 = "?m0\<lparr>free_blocks := [0]\<rparr>"
  let ?s = "\<lparr>request_id = ''a'', token_count = 3, block_table = [(0, 1), (1, 0)]\<rparr>"
  let ?u = "\<lparr>request_id = ''a'', token_count = 3, block_table = [(0, 1)]\<rparr>"
  have bs: "block_size ?m0 = 2" by (simp add: BlockManager_init_def)
  have all: "\<forall>m' \<in> set [?m0, ?m1, ?m1]. block_size m' = block_size ?m0"
    by (simp add: BlockManager_init_def)
  have u: "[0..(1::int)] = [0, 1]" by code_simp
  have run: "append_each (Sequence_init ''a'') [?m0, ?m1, ?m1] = Some ?s"
    by (simp add: append_token_def Sequence_init_def BlockManager_init_def dict_contains_def
        allocate_block_def u)
  have a2: "fst (allocate_block ?m1) = Inr 0"
    by (simp add: allocate_block_def BlockManager_init_def)
  have a1: "fst (allocate_block ?m0) = Inr 1"
    by (simp add: allocate_block_def BlockManager_init_def u)
  have un: "\<not> dict_contains (block_table ?u) (2 div block_size ?m0)"
    by (simp add: dict_contains_def bs)
  have 1: "get_physical_block ?s 3 ?m0 = Inl (ValueError_invalid_token_index 3 3)"
    using get_physical_block_correct [of 3 ?s ?m0] by simp
  have 2: "get_physical_block ?s (- 1) ?m0 = Inl (ValueError_invalid_token_index (- 1) 3)"
    using get_physical_block_correct [of "- 1" ?s ?m0] by simp
  have 3: "get_physical_block ?u 2 ?m0 = Inl (ValueError_logical_block_not_found 1 2)"
    using un get_physical_block_correct [of 2 ?u ?m0] by (simp add: bs)
  have 4: "get_physical_block ?s 2 ?m0 = Inr (0, 0)"
    using all run a2 get_physical_block_correct [of 2 ?s ?m0 "[?m0, ?m1, ?m1]" "''a''"]
    by (simp add: bs)
  have 5: "get_physical_block ?s 1 ?m0 = Inr (1, 1)"
    using all run a1 get_physical_block_correct [of 1 ?s ?m0 "[?m0, ?m1, ?m1]" "''a''"]
    by (simp add: bs)
  from 1 2 3 4 5 run a1 a2 show ?thesis by blast
qed


text \<open>
  C4: for a sequence built from a fresh one by successful appends (block size positive),
  \<open>token_count\<close> is the number of appends, \<^verbatim>\<open>get_num_blocks\<close> is the ceiling of
  \<open>token_count / block_size\<close>, and a logical index is in the block table exactly when some
  appended token lies in that logical block.
\<close>

theorem block_count_is_ceiling:
  assumes "0 < bs" "\<forall>m \<in> set ms. block_size m = bs"
    and "append_each (Sequence_init rid) ms = Some s"
  shows "token_count s = int (length ms)
    \<and> get_num_blocks s = \<lceil>real_of_int (token_count s) / real_of_int bs\<rceil>
    \<and> (\<forall>j. dict_contains (block_table s) j \<longleftrightarrow> (\<exists>k. 0 \<le> k \<and> k < token_count s \<and> k div bs = j))"
proof -
  let ?t = "int (length ms)"
  let ?c = "(?t + bs - 1) div bs"
  note h = append_each_history [OF assms]
  then have tc: "token_count s = ?t" and keys: "map fst (block_table s) = [0..?c - 1]"
    by simp_all
  have c0: "0 \<le> ?c" using assms(1) by (simp add: pos_imp_zdiv_nonneg_iff)
  have "length (block_table s) = length (map fst (block_table s))" by simp
  also have "\<dots> = nat ?c" by (simp only: keys length_upto)
  finally have "get_num_blocks s = ?c" using c0 by (simp add: get_num_blocks_def)
  then have "get_num_blocks s = (token_count s + bs - 1) div bs" by (simp only: tc)
  also have "\<dots> = \<lceil>real_of_int (token_count s) / real_of_int bs\<rceil>"
    by (rule ceiling_divide_eq [OF assms(1), symmetric])
  finally have n: "get_num_blocks s = \<lceil>real_of_int (token_count s) / real_of_int bs\<rceil>" .
  have m: "dict_contains (block_table s) j \<longleftrightarrow> (\<exists>k. 0 \<le> k \<and> k < token_count s \<and> k div bs = j)" for j
  proof
    assume "dict_contains (block_table s) j"
    then have "j \<in> set [0..?c - 1]" by (simp only: dict_contains_def keys)
    then have j: "0 \<le> j" "j < ?c" by simp_all
    from j(2) have "j * bs < ?t" using mult_lt_ceil [OF assms(1), of j ?t] by blast
    moreover have "0 \<le> j * bs" using j(1) assms(1) by simp
    moreover have "j * bs div bs = j" using assms(1) by simp
    ultimately show "\<exists>k. 0 \<le> k \<and> k < token_count s \<and> k div bs = j" using tc by auto
  next
    assume "\<exists>k. 0 \<le> k \<and> k < token_count s \<and> k div bs = j"
    then obtain k where k: "0 \<le> k" "k < ?t" "k div bs = j" using tc by auto
    from k(1,3) have "0 \<le> j" using assms(1) by (auto simp: pos_imp_zdiv_nonneg_iff)
    moreover have "j * bs < ?t" using block_bounds(1) [OF assms(1), of k] k(2,3) by simp
    then have "j < ?c" using mult_lt_ceil [OF assms(1), of j ?t] by blast
    ultimately have "j \<in> set [0..?c - 1]" by simp
    then show "dict_contains (block_table s) j" by (simp only: dict_contains_def keys)
  qed
  from tc n m show ?thesis by blast
qed


theorem block_count_is_ceiling_witness:
  "(0::int) < 2
   \<and> append_each (Sequence_init ''a'')
        [BlockManager_init 2 2 4 8 64 ''cpu'',
         (BlockManager_init 2 2 4 8 64 ''cpu'')\<lparr>free_blocks := [0]\<rparr>,
         (BlockManager_init 2 2 4 8 64 ''cpu'')\<lparr>free_blocks := [0]\<rparr>] =
       Some \<lparr>request_id = ''a'', token_count = 3, block_table = [(0, 1), (1, 0)]\<rparr>
   \<and> get_num_blocks \<lparr>request_id = ''a'', token_count = 3, block_table = [(0, 1), (1, 0)]\<rparr> =
       \<lceil>real_of_int 3 / real_of_int 2\<rceil>
   \<and> get_num_blocks \<lparr>request_id = ''a'', token_count = 3, block_table = [(0, 1), (1, 0)]\<rparr> = 2
   \<and> (dict_contains [(0, 1), (1, 0)] 1 \<longleftrightarrow> (\<exists>k::int. 0 \<le> k \<and> k < 3 \<and> k div 2 = 1))"
proof -
  let ?m0 = "BlockManager_init 2 2 4 8 64 ''cpu''"
  let ?m1 = "?m0\<lparr>free_blocks := [0]\<rparr>"
  let ?s = "\<lparr>request_id = ''a'', token_count = 3, block_table = [(0, 1), (1, 0)]\<rparr>"
  have bs: "(0::int) < 2" by simp
  have all: "\<forall>m \<in> set [?m0, ?m1, ?m1]. block_size m = 2"
    by (simp add: BlockManager_init_def)
  have u: "[0..(1::int)] = [0, 1]" by code_simp
  have run: "append_each (Sequence_init ''a'') [?m0, ?m1, ?m1] = Some ?s"
    by (simp add: append_token_def Sequence_init_def BlockManager_init_def dict_contains_def
        allocate_block_def u)
  have n: "get_num_blocks ?s = 2" by (simp add: get_num_blocks_def)
  from bs run n block_count_is_ceiling [OF bs all run] show ?thesis by simp
qed

subsection \<open>Ownership of blocks across sequences\<close>

lemma mapped_blocks_update:
  "i < length ss \<Longrightarrow>
   mset (mapped_blocks (ss[i := s'])) + mset (seq_blocks (ss ! i)) =
   mset (mapped_blocks ss) + mset (seq_blocks s')"
proof (induction ss arbitrary: i)
  case Nil
  then show ?case by simp
next
  case (Cons a ss)
  show ?case
  proof (cases i)
    case 0
    then show ?thesis by (simp add: mapped_blocks_def)
  next
    case (Suc j)
    with Cons.prems have "j < length ss" by simp
    from Cons.IH [OF this] Suc show ?thesis by (simp add: mapped_blocks_def)
  qed
qed

lemma mapped_blocks_snoc: "mapped_blocks (ss @ [Sequence_init rid]) = mapped_blocks ss"
  by (simp add: mapped_blocks_def seq_blocks_def Sequence_init_def dict_values_def)

lemma seq_blocks_subset: "i < length ss \<Longrightarrow> set (seq_blocks (ss ! i)) \<subseteq> set (mapped_blocks ss)"
  by (auto simp: mapped_blocks_def intro: nth_mem)

lemma seq_blocks_distinct:
  "i < length ss \<Longrightarrow> distinct (mapped_blocks ss) \<Longrightarrow> distinct (seq_blocks (ss ! i))"
  by (auto simp: mapped_blocks_def distinct_concat_iff)

lemma allocate_block_mset:
  "allocate_block m = (Inr b, m') \<Longrightarrow>
   mset (free_blocks m) = mset (free_blocks m') + {#b#} \<and> num_blocks m' = num_blocks m"
proof -
  assume a: "allocate_block m = (Inr b, m')"
  then have "free_blocks m \<noteq> []" by (auto simp: allocate_block_def split: if_splits)
  then obtain xs x where f: "free_blocks m = xs @ [x]" by (cases "free_blocks m" rule: rev_cases) auto
  with a show ?thesis by (auto simp: allocate_block_def)
qed

lemma append_token_mset:
  "append_token s m = (r, s', m') \<Longrightarrow>
   mset (free_blocks m') + mset (seq_blocks s') = mset (free_blocks m) + mset (seq_blocks s)
   \<and> num_blocks m' = num_blocks m"
proof (cases r)
  case (Inl e)
  assume "append_token s m = (r, s', m')"
  with Inl append_token_fail_unchanged show ?thesis by blast
next
  case (Inr u)
  assume a: "append_token s m = (r, s', m')"
  show ?thesis
  proof (cases "dict_contains (block_table s) (token_count s div block_size m)")
    case True
    from append_token_returns(2) [OF a [unfolded Inr] True] show ?thesis
      by (simp add: seq_blocks_def)
  next
    case False
    from append_token_returns(3) [OF a [unfolded Inr] False] obtain p where
      al: "allocate_block m = (Inr p, m')"
      and s': "s' = s\<lparr>block_table := block_table s @ [(token_count s div block_size m, p)],
                      token_count := token_count s + 1\<rparr>" by blast
    from allocate_block_mset [OF al] s' show ?thesis
      by (simp add: seq_blocks_def dict_values_def)
  qed
qed

lemma append_tokens_loop_mset:
  "append_tokens_loop s m n = (r, s', m') \<Longrightarrow>
   mset (free_blocks m') + mset (seq_blocks s') = mset (free_blocks m) + mset (seq_blocks s)
   \<and> num_blocks m' = num_blocks m"
proof (induction n arbitrary: s m)
  case 0
  then show ?case by simp
next
  case (Suc n)
  obtain r1 s1 m1 where a: "append_token s m = (r1, s1, m1)" by (cases "append_token s m")
  note h = append_token_mset [OF a]
  show ?case
  proof (cases r1)
    case (Inl e)
    with a Suc.prems have "s' = s1" "m' = m1" by simp_all
    with h show ?thesis by simp
  next
    case (Inr u)
    with a Suc.prems have "append_tokens_loop s1 m1 n = (r, s', m')" by simp
    from Suc.IH [OF this] h show ?thesis by simp
  qed
qed


lemma partitioned_distinct: "partitioned nb \<sigma> \<Longrightarrow> distinct (owners \<sigma>)"
proof -
  assume "partitioned nb \<sigma>"
  then have "mset (owners \<sigma>) = mset [0..nb - 1]" by (simp only: partitioned_def)
  from mset_eq_imp_distinct_iff [OF this] show ?thesis by (simp only: distinct_upto)
qed

lemma partitioned_set: "partitioned nb \<sigma> \<Longrightarrow> set (owners \<sigma>) = {b. 0 \<le> b \<and> b < nb}"
proof -
  assume "partitioned nb \<sigma>"
  then have "mset (owners \<sigma>) = mset [0..nb - 1]" by (simp only: partitioned_def)
  from mset_eq_setD [OF this] have "set (owners \<sigma>) = {0..nb - 1}" by (simp only: set_upto)
  also have "\<dots> = {b. 0 \<le> b \<and> b < nb}" by auto
  finally show ?thesis .
qed

lemma fresh_system_partitioned: "partitioned nb (fresh_system nb bs nl nh hs dev)"
proof -
  have "owners (fresh_system nb bs nl nh hs dev) = [0..nb - 1]"
    by (simp add: fresh_system_def owners_def mapped_blocks_def BlockManager_init_def)
  moreover have "num_blocks (pool (fresh_system nb bs nl nh hs dev)) = nb"
    by (simp add: fresh_system_def BlockManager_init_def)
  ultimately show ?thesis by (simp only: partitioned_def simp_thms)
qed

lemma seq_step_partitioned:
  assumes "partitioned nb \<sigma>" "i < length (seqs \<sigma>)"
    and e: "mset (free_blocks m') + mset (seq_blocks s') =
            mset (free_blocks (pool \<sigma>)) + mset (seq_blocks (seqs \<sigma> ! i))"
    and n: "num_blocks m' = num_blocks (pool \<sigma>)"
  shows "partitioned nb (\<sigma>\<lparr>pool := m', seqs := (seqs \<sigma>)[i := s']\<rparr>)"
proof -
  let ?\<sigma>' = "\<sigma>\<lparr>pool := m', seqs := (seqs \<sigma>)[i := s']\<rparr>"
  note u = mapped_blocks_update [OF assms(2), of s']
  have "mset (owners ?\<sigma>') = mset (owners \<sigma>)"
  proof (rule multiset_eqI)
    fix a
    have c1: "count (mset (mapped_blocks ((seqs \<sigma>)[i := s']))) a + count (mset (seq_blocks (seqs \<sigma> ! i))) a =
              count (mset (mapped_blocks (seqs \<sigma>))) a + count (mset (seq_blocks s')) a"
      using arg_cong [OF u, of "\<lambda>M. count M a"] by simp
    have c2: "count (mset (free_blocks m')) a + count (mset (seq_blocks s')) a =
              count (mset (free_blocks (pool \<sigma>))) a + count (mset (seq_blocks (seqs \<sigma> ! i))) a"
      using arg_cong [OF e, of "\<lambda>M. count M a"] by simp
    from c1 c2 show "count (mset (owners ?\<sigma>')) a = count (mset (owners \<sigma>)) a"
      by (simp add: owners_def)
  qed
  with assms(1) n show ?thesis by (simp add: partitioned_def)
qed

lemma partitioned_releasable:
  assumes "partitioned nb \<sigma>" "i < length (seqs \<sigma>)"
  shows "releasable (pool \<sigma>) (seq_blocks (seqs \<sigma> ! i))"
proof -
  from assms(1) have d: "distinct (owners \<sigma>)" by (rule partitioned_distinct)
  from assms(1) have st: "set (owners \<sigma>) = {b. 0 \<le> b \<and> b < nb}" by (rule partitioned_set)
  from assms(1) have nb: "num_blocks (pool \<sigma>) = nb" by (simp add: partitioned_def)
  note sub = seq_blocks_subset [OF assms(2)]
  from d have "distinct (mapped_blocks (seqs \<sigma>))" by (simp add: owners_def)
  with assms(2) have 1: "distinct (seq_blocks (seqs \<sigma> ! i))" by (rule seq_blocks_distinct)
  have 2: "0 \<le> b \<and> b < num_blocks (pool \<sigma>) \<and> b \<notin> set (free_blocks (pool \<sigma>))"
    if "b \<in> set (seq_blocks (seqs \<sigma> ! i))" for b
  proof -
    from that sub have m: "b \<in> set (mapped_blocks (seqs \<sigma>))" by blast
    then have "b \<in> set (owners \<sigma>)" by (simp add: owners_def)
    with st nb have "0 \<le> b \<and> b < num_blocks (pool \<sigma>)" by simp
    moreover from d m have "b \<notin> set (free_blocks (pool \<sigma>))" by (auto simp: owners_def)
    ultimately show ?thesis by simp
  qed
  from 1 2 show ?thesis by (simp add: releasable_def)
qed

lemma step_partitioned:
  assumes "partitioned nb \<sigma>" "permitted \<sigma> x"
  shows "partitioned nb (step \<sigma> x)"
proof (cases x)
  case (New_sequence rid)
  with assms(1) show ?thesis by (simp add: partitioned_def owners_def mapped_blocks_snoc)
next
  case Allocate
  obtain r m' where a: "allocate_block (pool \<sigma>) = (r, m')" by (cases "allocate_block (pool \<sigma>)")
  show ?thesis
  proof (cases r)
    case (Inl e)
    with a have "m' = pool \<sigma>" by (simp add: allocate_block_fail_unchanged)
    with a Inl Allocate assms(1) show ?thesis by simp
  next
    case (Inr b)
    with a allocate_block_mset have "mset (free_blocks (pool \<sigma>)) = mset (free_blocks m') + {#b#}"
      "num_blocks m' = num_blocks (pool \<sigma>)" by blast+
    with a Inr Allocate assms(1) show ?thesis by (simp add: partitioned_def owners_def)
  qed
next
  case (Release b)
  obtain r m' where f: "free_block (pool \<sigma>) b = (r, m')" by (cases "free_block (pool \<sigma>) b")
  show ?thesis
  proof (cases r)
    case (Inl e)
    with f have "m' = pool \<sigma>" by (simp add: free_block_fail_unchanged)
    with f Inl Release assms(1) show ?thesis by simp
  next
    case (Inr u)
    with f have b: "0 \<le> b" "b < num_blocks (pool \<sigma>)" "b \<notin> set (free_blocks (pool \<sigma>))"
      and m': "m' = (pool \<sigma>)\<lparr>free_blocks := free_blocks (pool \<sigma>) @ [b]\<rparr>"
      by (simp_all add: free_block_ok_iff)
    from assms(1) have nb: "num_blocks (pool \<sigma>) = nb" by (simp add: partitioned_def)
    from b nb partitioned_set [OF assms(1)] have "b \<in> set (owners \<sigma>)" by simp
    moreover from assms(2) Release have "b \<notin> set (mapped_blocks (seqs \<sigma>))" by simp
    ultimately have "b \<in> set (held \<sigma>)" using b(3) by (simp add: owners_def)
    then have "mset (remove1 b (held \<sigma>)) + {#b#} = mset (held \<sigma>)" by simp
    then have "mset (owners (step \<sigma> x)) = mset (owners \<sigma>)"
      using f Inr Release m' by (simp add: owners_def)
    with assms(1) f Inr Release m' show ?thesis by (simp add: partitioned_def)
  qed
next
  case (Append_token i)
  show ?thesis
  proof (cases "i < length (seqs \<sigma>)")
    case True
    obtain r s' m' where a: "append_token (seqs \<sigma> ! i) (pool \<sigma>) = (r, s', m')"
      by (cases "append_token (seqs \<sigma> ! i) (pool \<sigma>)")
    from append_token_mset [OF a] seq_step_partitioned [OF assms(1) True, of m' s']
    have "partitioned nb (\<sigma>\<lparr>pool := m', seqs := (seqs \<sigma>)[i := s']\<rparr>)" by simp
    with a True Append_token show ?thesis by simp
  next
    case False
    with Append_token assms(1) show ?thesis by simp
  qed
next
  case (Append_tokens i n)
  show ?thesis
  proof (cases "i < length (seqs \<sigma>)")
    case True
    obtain r s' m' where a: "append_tokens (seqs \<sigma> ! i) (pool \<sigma>) n = (r, s', m')"
      by (cases "append_tokens (seqs \<sigma> ! i) (pool \<sigma>) n")
    then have "append_tokens_loop (seqs \<sigma> ! i) (pool \<sigma>) (nat n) = (r, s', m')"
      by (simp add: append_tokens_def)
    from append_tokens_loop_mset [OF this] seq_step_partitioned [OF assms(1) True, of m' s']
    have "partitioned nb (\<sigma>\<lparr>pool := m', seqs := (seqs \<sigma>)[i := s']\<rparr>)" by simp
    with a True Append_tokens show ?thesis by simp
  next
    case False
    with Append_tokens assms(1) show ?thesis by simp
  qed
next
  case (Release_all i)
  show ?thesis
  proof (cases "i < length (seqs \<sigma>)")
    case True
    let ?s = "seqs \<sigma> ! i"
    let ?s' = "?s\<lparr>block_table := [], token_count := 0\<rparr>"
    let ?m' = "(pool \<sigma>)\<lparr>free_blocks := free_blocks (pool \<sigma>) @ seq_blocks ?s\<rparr>"
    from partitioned_releasable [OF assms(1) True]
    have "free_blocks_loop (pool \<sigma>) (seq_blocks ?s) = (Inr (), ?m')" by (rule free_blocks_loop_ok)
    then have a: "free_all_blocks ?s (pool \<sigma>) = (Inr (), ?s', ?m')"
      by (simp add: free_all_blocks_def seq_blocks_def)
    have "mset (free_blocks ?m') + mset (seq_blocks ?s') =
            mset (free_blocks (pool \<sigma>)) + mset (seq_blocks ?s)"
      by (simp add: seq_blocks_def dict_values_def)
    from seq_step_partitioned [OF assms(1) True this]
    have "partitioned nb (\<sigma>\<lparr>pool := ?m', seqs := (seqs \<sigma>)[i := ?s']\<rparr>)" by simp
    with a True Release_all show ?thesis by simp
  next
    case False
    with Release_all assms(1) show ?thesis by simp
  qed
qed

lemma run_partitioned:
  "partitioned nb \<sigma> \<Longrightarrow> permitted_run \<sigma> xs \<Longrightarrow> partitioned nb (run \<sigma> xs)"
  by (induction xs arbitrary: \<sigma>) (simp_all add: step_partitioned)


lemma concat_disjoint:
  "distinct (concat xss) \<Longrightarrow> i < j \<Longrightarrow> j < length xss \<Longrightarrow> set (xss ! i) \<inter> set (xss ! j) = {}"
proof (induction xss arbitrary: i j)
  case Nil
  then show ?case by simp
next
  case (Cons xs xss)
  from Cons.prems(2) obtain j' where j: "j = Suc j'" by (cases j) auto
  with Cons.prems(3) have j': "j' < length xss" by simp
  show ?case
  proof (cases i)
    case 0
    from j' have "set (xss ! j') \<subseteq> set (concat xss)" by (auto intro: nth_mem)
    with Cons.prems(1) 0 j show ?thesis by auto
  next
    case (Suc i')
    with Cons.prems j have "distinct (concat xss)" "i' < j'" by simp_all
    from Cons.IH [OF this j'] Suc j show ?thesis by simp
  qed
qed

text \<open>
  C1 (as amended): in every state reached from a freshly constructed pool by any interleaving
  of sequence creation, direct \<^verbatim>\<open>allocate_block\<close> calls, \<^verbatim>\<open>append_token\<close>, \<^verbatim>\<open>append_tokens\<close>
  and \<^verbatim>\<open>free_all_blocks\<close> on any number of sequences, and of direct \<^verbatim>\<open>free_block\<close> calls on
  identifiers that no block table references, every identifier of \<open>[0, num_blocks)\<close> occurs
  exactly once among the free list, the identifiers handed out by direct allocation and not
  yet released, and the block tables; in particular no identifier is both free and mapped, and
  no two sequences reference the same identifier.
\<close>

theorem ownership_partition:
  assumes "permitted_run (fresh_system nb bs nl nh hs dev) xs"
  shows "distinct (owners (run (fresh_system nb bs nl nh hs dev) xs))
    \<and> set (owners (run (fresh_system nb bs nl nh hs dev) xs)) = {b. 0 \<le> b \<and> b < nb}
    \<and> (\<forall>b. 0 \<le> b \<and> b < nb \<longrightarrow>
          count_list (owners (run (fresh_system nb bs nl nh hs dev) xs)) b = 1)
    \<and> (\<forall>i j. i < j \<and> j < length (seqs (run (fresh_system nb bs nl nh hs dev) xs)) \<longrightarrow>
          set (seq_blocks (seqs (run (fresh_system nb bs nl nh hs dev) xs) ! i))
          \<inter> set (seq_blocks (seqs (run (fresh_system nb bs nl nh hs dev) xs) ! j)) = {})"
proof -
  let ?\<sigma> = "run (fresh_system nb bs nl nh hs dev) xs"
  from fresh_system_partitioned assms have p: "partitioned nb ?\<sigma>" by (rule run_partitioned)
  then have d: "distinct (owners ?\<sigma>)" by (rule partitioned_distinct)
  from p have st: "set (owners ?\<sigma>) = {b. 0 \<le> b \<and> b < nb}" by (rule partitioned_set)
  have c: "count_list (owners ?\<sigma>) b = 1" if "0 \<le> b \<and> b < nb" for b
  proof -
    from that st have "b \<in> set (owners ?\<sigma>)" by simp
    with d have "count (mset (owners ?\<sigma>)) b = 1" by (simp add: distinct_count_atmost_1)
    then show ?thesis by (simp only: count_mset)
  qed
  have x: "set (seq_blocks (seqs ?\<sigma> ! i)) \<inter> set (seq_blocks (seqs ?\<sigma> ! j)) = {}"
    if "i < j \<and> j < length (seqs ?\<sigma>)" for i j
  proof -
    from d have "distinct (concat (map seq_blocks (seqs ?\<sigma>)))"
      by (simp add: owners_def mapped_blocks_def)
    from concat_disjoint [OF this, of i j] that show ?thesis by simp
  qed
  from d st c x show ?thesis by blast
qed

theorem ownership_partition_witness:
  "permitted_run (fresh_system 2 1 4 8 64 ''cpu'')
     [New_sequence ''a'', New_sequence ''b'', Append_tokens 0 1, Allocate, Release_all 0,
      Append_token 1, Release 0]
   \<and> owners (run (fresh_system 2 1 4 8 64 ''cpu'')
     [New_sequence ''a'', New_sequence ''b'', Append_tokens 0 1, Allocate, Release_all 0,
      Append_token 1, Release 0]) = [0, 1]
   \<and> count_list (owners (run (fresh_system 2 1 4 8 64 ''cpu'')
     [New_sequence ''a'', New_sequence ''b'', Append_tokens 0 1, Allocate, Release_all 0,
      Append_token 1, Release 0])) 1 = 1"
proof -
  let ?xs = "[New_sequence ''a'', New_sequence ''b'', Append_tokens 0 1, Allocate, Release_all 0,
      Append_token 1, Release 0]"
  have u: "[0..(1::int)] = [0, 1]" by code_simp
  have r: "run (fresh_system 2 1 4 8 64 ''cpu'') ?xs =
     \<lparr>pool = (BlockManager_init 2 1 4 8 64 ''cpu'')\<lparr>free_blocks := [0]\<rparr>,
      seqs = [\<lparr>request_id = ''a'', token_count = 0, block_table = []\<rparr>,
              \<lparr>request_id = ''b'', token_count = 1, block_table = [(0, 1)]\<rparr>],
      held = []\<rparr>"
    by (simp add: fresh_system_def BlockManager_init_def Sequence_init_def append_tokens_def
        append_token_def allocate_block_def free_block_def free_all_blocks_def
        dict_contains_def dict_values_def u)
  have h: "permitted_run (fresh_system 2 1 4 8 64 ''cpu'') ?xs"
    by (simp add: fresh_system_def BlockManager_init_def Sequence_init_def append_tokens_def
        append_token_def allocate_block_def free_block_def free_all_blocks_def
        dict_contains_def dict_values_def mapped_blocks_def seq_blocks_def u)
  have o: "owners (run (fresh_system 2 1 4 8 64 ''cpu'') ?xs) = [0, 1]"
    by (simp only: r) (simp add: owners_def mapped_blocks_def seq_blocks_def dict_values_def)
  from h o ownership_partition [OF h] show ?thesis by simp
qed

text \<open>
  The claim C1 as first stated, with unrestricted direct \<^verbatim>\<open>free_block\<close> and
  \<^verbatim>\<open>allocate_block\<close> calls and no owner besides the free list and the block tables, fails: on a
  pool of one block, sequence \<open>a\<close> appends a token (and gets block 0), block 0 is released
  directly, and sequence \<open>b\<close> appends a token: both block tables now reference block 0. And
  after a single direct \<^verbatim>\<open>allocate_block\<close>, block 0 is neither free nor in any block table.
\<close>

theorem ownership_partition_counterexample:
  "seq_blocks (seqs (run (fresh_system 1 16 4 8 64 ''cpu'')
      [New_sequence ''a'', New_sequence ''b'', Append_token 0, Release 0, Append_token 1]) ! 0) = [0]
   \<and> seq_blocks (seqs (run (fresh_system 1 16 4 8 64 ''cpu'')
      [New_sequence ''a'', New_sequence ''b'', Append_token 0, Release 0, Append_token 1]) ! 1) = [0]
   \<and> free_blocks (pool (run (fresh_system 1 16 4 8 64 ''cpu'') [Allocate])) = []
   \<and> mapped_blocks (seqs (run (fresh_system 1 16 4 8 64 ''cpu'') [Allocate])) = []"
  by (simp add: fresh_system_def BlockManager_init_def Sequence_init_def
      append_token_def allocate_block_def free_block_def
      dict_contains_def dict_values_def mapped_blocks_def seq_blocks_def)

subsection \<open>The round trip of a sequence's lifetime\<close>

lemma append_batches_mset:
  "append_batches s m ns = (s', m') \<Longrightarrow>
   mset (free_blocks m') + mset (seq_blocks s') = mset (free_blocks m) + mset (seq_blocks s)"
proof (induction ns arbitrary: s m)
  case Nil
  then show ?case by simp
next
  case (Cons n ns)
  obtain r s1 m1 where a: "append_tokens s m n = (r, s1, m1)" by (cases "append_tokens s m n")
  then have "append_tokens_loop s m (nat n) = (r, s1, m1)" by (simp add: append_tokens_def)
  note h = append_tokens_loop_mset [OF this]
  from a Cons.prems have "append_batches s1 m1 ns = (s', m')" by simp
  from Cons.IH [OF this] h show ?case by simp
qed

lemma free_all_blocks_returns:
  assumes "free_all_blocks s m = (Inr u, s', m')"
  shows "s' = s\<lparr>block_table := [], token_count := 0\<rparr>"
    and "m' = m\<lparr>free_blocks := free_blocks m @ seq_blocks s\<rparr>"
proof -
  from assms obtain u' where l: "free_blocks_loop m (seq_blocks s) = (Inr u', m')"
    and s': "s' = s\<lparr>block_table := [], token_count := 0\<rparr>"
    by (auto simp: free_all_blocks_def seq_blocks_def split: prod.splits sum.splits)
  from l have "releasable m (seq_blocks s)" by (rule free_blocks_loop_returns)
  from free_blocks_loop_ok [OF this] l show "m' = m\<lparr>free_blocks := free_blocks m @ seq_blocks s\<rparr>"
    by simp
  from s' show "s' = s\<lparr>block_table := [], token_count := 0\<rparr>" .
qed

lemma length_seq_blocks: "int (length (seq_blocks s)) = get_num_blocks s"
  by (simp add: seq_blocks_def dict_values_def get_num_blocks_def)

text \<open>
  C7: \<^verbatim>\<open>append_tokens\<close> keeps the sum of the pool's free count and the sequence's block
  count, whether it returns or raises; a \<^verbatim>\<open>free_all_blocks\<close> that returns adds the sequence's
  block count to the free count and leaves the block count 0. Hence, for a sequence that
  starts fresh and takes all its blocks from pool \<open>m\<close> in any number of batches, a
  \<^verbatim>\<open>free_all_blocks\<close> that returns brings the free count back to that of \<open>m\<close>.
\<close>

theorem release_all_round_trip:
  "(\<forall>r s' m'. append_tokens s m n = (r, s', m') \<longrightarrow>
      get_num_free_blocks m' + get_num_blocks s' = get_num_free_blocks m + get_num_blocks s)
   \<and> (\<forall>s' m'. free_all_blocks s m = (Inr (), s', m') \<longrightarrow>
        get_num_free_blocks m' = get_num_free_blocks m + get_num_blocks s \<and> get_num_blocks s' = 0)
   \<and> (\<forall>s1 m1 s2 m2. append_batches (Sequence_init rid) m ns = (s1, m1)
          \<and> free_all_blocks s1 m1 = (Inr (), s2, m2) \<longrightarrow>
        get_num_free_blocks m2 = get_num_free_blocks m \<and> get_num_blocks s2 = 0)"
proof (intro conjI allI impI)
  fix r s' m' assume "append_tokens s m n = (r, s', m')"
  then have "append_tokens_loop s m (nat n) = (r, s', m')" by (simp add: append_tokens_def)
  from append_tokens_loop_mset [OF this]
  have "size (mset (free_blocks m') + mset (seq_blocks s')) =
        size (mset (free_blocks m) + mset (seq_blocks s))" by simp
  then have "int (length (free_blocks m')) + int (length (seq_blocks s')) =
        int (length (free_blocks m)) + int (length (seq_blocks s))" by simp
  then show "get_num_free_blocks m' + get_num_blocks s' = get_num_free_blocks m + get_num_blocks s"
    by (simp only: length_seq_blocks get_num_free_blocks_def)
next
  fix s' m' assume a: "free_all_blocks s m = (Inr (), s', m')"
  from free_all_blocks_returns [OF a]
  show "get_num_free_blocks m' = get_num_free_blocks m + get_num_blocks s"
    and "get_num_blocks s' = 0"
    by (simp_all add: get_num_free_blocks_def get_num_blocks_def seq_blocks_def dict_values_def)
next
  fix s1 m1 s2 m2
  assume a: "append_batches (Sequence_init rid) m ns = (s1, m1)
          \<and> free_all_blocks s1 m1 = (Inr (), s2, m2)"
  then have b: "append_batches (Sequence_init rid) m ns = (s1, m1)"
    and f: "free_all_blocks s1 m1 = (Inr (), s2, m2)" by simp_all
  from append_batches_mset [OF b]
  have "size (mset (free_blocks m1) + mset (seq_blocks s1)) =
        size (mset (free_blocks m) + mset (seq_blocks (Sequence_init rid)))" by simp
  then have "length (free_blocks m1) + length (seq_blocks s1) = length (free_blocks m)"
    by (simp add: seq_blocks_def Sequence_init_def dict_values_def)
  with free_all_blocks_returns [OF f]
  show "get_num_free_blocks m2 = get_num_free_blocks m" and "get_num_blocks s2 = 0"
    by (simp_all add: get_num_free_blocks_def get_num_blocks_def)
qed


theorem release_all_round_trip_witness:
  "append_batches (Sequence_init ''a'') (BlockManager_init 3 2 4 8 64 ''cpu'') [3] =
     (\<lparr>request_id = ''a'', token_count = 3, block_table = [(0, 2), (1, 1)]\<rparr>,
      (BlockManager_init 3 2 4 8 64 ''cpu'')\<lparr>free_blocks := [0]\<rparr>)
   \<and> free_all_blocks \<lparr>request_id = ''a'', token_count = 3, block_table = [(0, 2), (1, 1)]\<rparr>
       ((BlockManager_init 3 2 4 8 64 ''cpu'')\<lparr>free_blocks := [0]\<rparr>) =
     (Inr (), \<lparr>request_id = ''a'', token_count = 0, block_table = []\<rparr>,
      (BlockManager_init 3 2 4 8 64 ''cpu'')\<lparr>free_blocks := [0, 2, 1]\<rparr>)
   \<and> get_num_free_blocks ((BlockManager_init 3 2 4 8 64 ''cpu'')\<lparr>free_blocks := [0, 2, 1]\<rparr>) =
       get_num_free_blocks (BlockManager_init 3 2 4 8 64 ''cpu'')
   \<and> get_num_blocks \<lparr>request_id = ''a'', token_count = 0, block_table = []\<rparr> = 0"
proof -
  let ?m = "BlockManager_init 3 2 4 8 64 ''cpu''"
  let ?s1 = "\<lparr>request_id = ''a'', token_count = 3, block_table = [(0, 2), (1, 1)]\<rparr>"
  let ?s2 = "\<lparr>request_id = ''a'', token_count = 0, block_table = []\<rparr>"
  have u: "[0..(2::int)] = [0, 1, 2]" by code_simp
  have b: "append_batches (Sequence_init ''a'') ?m [3] = (?s1, ?m\<lparr>free_blocks := [0]\<rparr>)"
    by (simp add: append_tokens_def append_token_def Sequence_init_def BlockManager_init_def
        dict_contains_def allocate_block_def eval_nat_numeral u)
  have f: "free_all_blocks ?s1 (?m\<lparr>free_blocks := [0]\<rparr>) =
     (Inr (), ?s2, ?m\<lparr>free_blocks := [0, 2, 1]\<rparr>)"
    by (simp add: free_all_blocks_def free_block_def dict_values_def BlockManager_init_def)
  from b f release_all_round_trip [where m = ?m and rid = "''a''" and ns = "[3]"]
  show ?thesis by blast
qed

end
